theory Spec2Isabelle
  imports Complex_Main "HOL-Library.Multiset"
begin

section \<open>JavaScript values used by the server\<close>

text \<open>
  A JavaScript string is a sequence of UTF-16 code units; \<open>length\<close>, \<open>trim\<close>, \<open>split\<close>
  and the regular expressions of the server all work on code units. A code unit is
  modelled as a natural number, a string as a list of them. \<open>js\<close> writes an ASCII literal.
  JavaScript numbers (page sizes, text widths, confidences) are modelled as reals:
  every comparison the code makes is kept; a constant the code computes is the double it
  evaluates to, while the sums and differences of the cursor are exact.
\<close>

type_synonym code_unit = nat
type_synonym jsstring = "code_unit list"

definition js :: "string \<Rightarrow> jsstring" where
  "js s = map of_char s"

text \<open>
  The class \<open>\s\<close> of a regular expression and the characters \<open>String.prototype.trim\<close>
  strips are the same set: WhiteSpace and LineTerminator of ECMAScript.
\<close>

definition isSpace :: "code_unit \<Rightarrow> bool" where
  "isSpace c = (c = 9 \<or> c = 10 \<or> c = 11 \<or> c = 12 \<or> c = 13 \<or> c = 32 \<or> c = 160
      \<or> c = 5760 \<or> (8192 \<le> c \<and> c \<le> 8202) \<or> c = 8232 \<or> c = 8233 \<or> c = 8239
      \<or> c = 8287 \<or> c = 12288 \<or> c = 65279)"

text \<open>With the \<open>m\<close> flag, \<open>^\<close> matches at the start and after a line terminator.\<close>

definition isLineTerminator :: "code_unit \<Rightarrow> bool" where
  "isLineTerminator c = (c = 10 \<or> c = 13 \<or> c = 8232 \<or> c = 8233)"

definition trim :: "jsstring \<Rightarrow> jsstring" where
  "trim s = rev (dropWhile isSpace (rev (dropWhile isSpace s)))"

text \<open>\<open>Number.prototype.toString\<close> on a non-negative integer: its decimal digits.\<close>

fun showNat :: "nat \<Rightarrow> jsstring" where
  "showNat n = (if n < 10 then [48 + n] else showNat (n div 10) @ [48 + n mod 10])"

declare showNat.simps [simp del]

text \<open>
  A thrown \<open>Error\<close> object: its \<open>name\<close> and its \<open>message\<close>. \<open>errorToString\<close> is
  \<open>Error.prototype.toString\<close>, which a template literal \<open>${error}\<close> calls.
\<close>

datatype js_error = JsError (err_name: jsstring) (err_message: jsstring)

fun errorToString :: "js_error \<Rightarrow> jsstring" where
  "errorToString (JsError n m) =
     (if n = [] then m else if m = [] then n else n @ js '': '' @ m)"

text \<open>
  What \<open>response.json()\<close> can resolve to. An object is the list of its properties,
  each key once; a property is read with \<open>map_of\<close>.
\<close>

datatype json =
    JNull
  | JBool bool
  | JNum real
  | JStr jsstring
  | JArr "json list"
  | JObj "(jsstring \<times> json) list"

text \<open>Truthiness of a parsed JSON value (JSON has no \<open>NaN\<close> and no \<open>undefined\<close>).\<close>

fun truthy :: "json \<Rightarrow> bool" where
  "truthy JNull = False"
| "truthy (JBool b) = b"
| "truthy (JNum x) = (x \<noteq> 0)"
| "truthy (JStr s) = (s \<noteq> [])"
| "truthy (JArr xs) = True"
| "truthy (JObj kvs) = True"

text \<open>
  Reading the property \<open>translation_text\<close> or \<open>generated_text\<close> of a parsed JSON value:
  only an object can have it; on \<open>null\<close> (through \<open>?.\<close>), a primitive or an array the
  read gives \<open>undefined\<close>, here \<open>None\<close>.
\<close>

fun getProp :: "json \<Rightarrow> jsstring \<Rightarrow> json option" where
  "getProp (JObj kvs) k = map_of kvs k"
| "getProp v k = None"

section \<open>The translation capability and \<open>translateWithHuggingFace\<close>\<close>

text \<open>
  The HTTP response of the inference service, as far as the code reads it:
  \<open>response.ok\<close>, \<open>response.status\<close>, and what \<open>response.text()\<close> and
  \<open>response.json()\<close> resolve to or reject with.
\<close>

record response =
  resp_ok :: bool
  resp_status :: nat
  resp_text :: "js_error + jsstring"
  resp_json :: "js_error + json"

text \<open>
  The external service: given the requests sent so far and the text of this request, the
  call to \<open>fetch\<close> rejects (\<open>Inl\<close>, a network error) or resolves to a response.
  The model threads the list of requests sent, so that "no call was made" is a statement
  about that list.
\<close>

type_synonym translation_service = "jsstring list \<Rightarrow> jsstring \<Rightarrow> js_error + response"

definition parseResult :: "json \<Rightarrow> js_error + json" where
  "parseResult result =
     (case (case result of
              JArr (r0 # rs) \<Rightarrow>
                (case getProp r0 (js ''translation_text'') of
                   Some v \<Rightarrow> if truthy v then Some v else None
                 | None \<Rightarrow> None)
            | _ \<Rightarrow> None) of
        Some v \<Rightarrow> Inr v
      | None \<Rightarrow>
          (case (case result of
                   JObj kvs \<Rightarrow>
                     (case map_of kvs (js ''generated_text'') of
                        Some (JStr s) \<Rightarrow> Some (JStr s)
                      | _ \<Rightarrow> None)
                 | _ \<Rightarrow> None) of
             Some v \<Rightarrow> Inr v
           | None \<Rightarrow>
               (case result of
                  JStr s \<Rightarrow> Inr (JStr s)
                | _ \<Rightarrow> Inl (JsError (js ''Error'') (js ''Invalid translation response format'')))))"

definition translateWithHuggingFace ::
  "translation_service \<Rightarrow> jsstring list \<Rightarrow> jsstring \<Rightarrow> (js_error + json) \<times> jsstring list" where
  "translateWithHuggingFace fetch sent txt =
     (if txt = [] \<or> length (trim txt) = 0 then (Inr (JStr []), sent)
      else
        (case fetch sent txt of
           Inl e \<Rightarrow> (Inl e, sent @ [txt])
         | Inr response \<Rightarrow>
             if \<not> resp_ok response then
               (case resp_text response of
                  Inl e \<Rightarrow> (Inl e, sent @ [txt])
                | Inr errorText \<Rightarrow>
                    (Inl (JsError (js ''Error'')
                       (js ''Translation failed: '' @ showNat (resp_status response)
                          @ js '' - '' @ errorText)),
                     sent @ [txt]))
             else
               (case resp_json response of
                  Inl e \<Rightarrow> (Inl e, sent @ [txt])
                | Inr result \<Rightarrow> (parseResult result, sent @ [txt]))))"

section \<open>The page loop of \<open>translatePdf\<close>\<close>

text \<open>
  \<open>.replace(/^#+\s*/gm, '')\<close>: at the start of a line, a run of \<open>#\<close> and the
  whitespace after it (line terminators included) is removed. The flag says whether the
  code unit before the current position is a line terminator (or there is none).
\<close>

function stripHeadings :: "bool \<Rightarrow> jsstring \<Rightarrow> jsstring" where
  "stripHeadings bol [] = []"
| "stripHeadings bol (c # cs) =
     (if bol \<and> c = 35 then
        (let hashes = takeWhile (\<lambda>d. d = 35) cs;
             r1 = dropWhile (\<lambda>d. d = 35) cs;
             spaces = takeWhile isSpace r1;
             r2 = dropWhile isSpace r1
         in stripHeadings (isLineTerminator (last (c # hashes @ spaces))) r2)
      else c # stripHeadings (isLineTerminator c) cs)"
  by pat_completeness auto
termination
proof (relation "measure (\<lambda>(bol, s). length s)")
  show "wf (measure (\<lambda>(bol, s). length s))"
    by simp
next
  fix bol :: bool and c :: code_unit and cs hashes r1 spaces r2 :: jsstring
  assume "r1 = dropWhile (\<lambda>d. d = 35) cs" "r2 = dropWhile isSpace r1"
  then have "length r2 \<le> length cs"
    by (simp add: le_trans [OF length_dropWhile_le length_dropWhile_le])
  then show "((isLineTerminator (last (c # hashes @ spaces)), r2), (bol, c # cs))
      \<in> measure (\<lambda>(bol, s). length s)"
    by simp
next
  fix bol :: bool and c :: code_unit and cs :: jsstring
  show "((isLineTerminator c, cs), (bol, c # cs)) \<in> measure (\<lambda>(bol, s). length s)"
    by simp
qed

text \<open>\<open>.replace(/\*\*/g, '')\<close>: the occurrences of \<open>**\<close>, left to right, without overlap.\<close>

fun removeDoubleStars :: "jsstring \<Rightarrow> jsstring" where
  "removeDoubleStars (a # b # cs) =
     (if a = 42 \<and> b = 42 then removeDoubleStars cs else a # removeDoubleStars (b # cs))"
| "removeDoubleStars cs = cs"

text \<open>\<open>.replace(/\*/g, '')\<close> and \<open>.replace(/`/g, '')\<close>.\<close>

definition removeStars :: "jsstring \<Rightarrow> jsstring" where
  "removeStars s = filter (\<lambda>c. c \<noteq> 42) s"

definition removeBackticks :: "jsstring \<Rightarrow> jsstring" where
  "removeBackticks s = filter (\<lambda>c. c \<noteq> 96) s"

text \<open>
  \<open>.replace(/\[([^\]]+)\]\([^\)]+\)/g, '$1')\<close>: a Markdown link \<open>[label](target)\<close> is
  replaced by its label. Both classes exclude the delimiter that must follow them, so the
  greedy runs are the only way to match: the label is the non-empty run up to the first
  \<open>]\<close>, which \<open>(\<close> must follow, and the target is the non-empty run up to the first
  \<open>)\<close>.
\<close>

function unlinkMarkdown :: "jsstring \<Rightarrow> jsstring" where
  "unlinkMarkdown [] = []"
| "unlinkMarkdown (c # cs) =
     (let label = takeWhile (\<lambda>d. d \<noteq> 93) cs;
          r1 = dropWhile (\<lambda>d. d \<noteq> 93) cs;
          target = takeWhile (\<lambda>d. d \<noteq> 41) (drop 2 r1);
          r2 = dropWhile (\<lambda>d. d \<noteq> 41) (drop 2 r1)
      in if c = 91 \<and> label \<noteq> [] \<and> take 2 r1 = [93, 40] \<and> target \<noteq> [] \<and> r2 \<noteq> []
         then label @ unlinkMarkdown (tl r2)
         else c # unlinkMarkdown cs)"
  by pat_completeness auto
termination
proof (relation "measure length")
  show "wf (measure length)"
    by simp
next
  fix c :: code_unit and cs label r1 target r2 :: jsstring
  assume r1: "r1 = dropWhile (\<lambda>d. d \<noteq> 93) cs"
    and r2: "r2 = dropWhile (\<lambda>d. d \<noteq> 41) (drop 2 r1)"
  have "length r2 \<le> length (drop 2 r1)"
    unfolding r2 by (rule length_dropWhile_le)
  moreover have "length r1 \<le> length cs"
    unfolding r1 by (rule length_dropWhile_le)
  ultimately have "length (tl r2) \<le> length cs"
    by simp
  then show "(tl r2, c # cs) \<in> measure length"
    by simp
next
  fix c :: code_unit and cs :: jsstring
  show "(cs, c # cs) \<in> measure length"
    by simp
qed

definition cleanText :: "jsstring \<Rightarrow> jsstring" where
  "cleanText pageText =
     trim (removeBackticks (unlinkMarkdown (removeStars (removeDoubleStars
       (stripHeadings True pageText)))))"

text \<open>The placeholder pushed by the \<open>catch\<close> of the page loop.\<close>

definition failureMarker :: "js_error \<Rightarrow> jsstring" where
  "failureMarker e = js ''[Translation failed: '' @ errorToString e @ js '']''"

text \<open>
  One iteration of the loop, after \<open>extractedTexts.push(pageText)\<close>: the translated text
  pushed for the page, and the requests sent afterwards. \<open>translated.substring\<close> inside
  the \<open>try\<close> throws a \<open>TypeError\<close> when the service's JSON made
  \<open>translateWithHuggingFace\<close> return a value that is not a string.
\<close>

definition translatePage ::
  "translation_service \<Rightarrow> jsstring list \<Rightarrow> jsstring \<Rightarrow> jsstring \<times> jsstring list" where
  "translatePage fetch sent pageText =
     (if pageText \<noteq> [] \<and> 10 < length (trim pageText) then
        (case translateWithHuggingFace fetch sent (cleanText pageText) of
           (Inr (JStr translated), sent') \<Rightarrow> (translated, sent')
         | (Inr v, sent') \<Rightarrow>
             (failureMarker (JsError (js ''TypeError'')
                (js ''translated.substring is not a function'')), sent')
         | (Inl e, sent') \<Rightarrow> (failureMarker e, sent'))
      else ([], sent))"

text \<open>
  The loop over \<open>ocrResult.pages\<close>: the state is \<open>extractedTexts\<close>, \<open>translatedTexts\<close>
  and the requests sent.
\<close>

fun translatePages ::
  "translation_service \<Rightarrow> jsstring list \<Rightarrow> jsstring list \<times> jsstring list \<times> jsstring list
     \<Rightarrow> jsstring list \<times> jsstring list \<times> jsstring list" where
  "translatePages fetch [] st = st"
| "translatePages fetch (pageText # rest) (extractedTexts, translatedTexts, sent) =
     (case translatePage fetch sent pageText of
        (translated, sent') \<Rightarrow>
          translatePages fetch rest
            (extractedTexts @ [pageText], translatedTexts @ [translated], sent'))"

text \<open>The requests that have been sent when the loop reaches the page at index \<open>i\<close>.\<close>

definition sentBefore ::
  "translation_service \<Rightarrow> jsstring list \<Rightarrow> jsstring list \<Rightarrow> nat \<Rightarrow> jsstring list" where
  "sentBefore fetch pages sent i = snd (snd (translatePages fetch (take i pages) ([], [], sent)))"

section \<open>The overlay of the translated text\<close>

text \<open>
  A page copied from the original document: its size, and its content, which the overlay
  never reads. An output page is the copied page and the \<open>drawText\<close> calls made on
  it, in order. The font and the colour are the same in every call and are left out.
\<close>

record pdf_page =
  pg_width :: real
  pg_height :: real
  pg_content :: nat

record draw_op =
  dr_text :: jsstring
  dr_x :: real
  dr_y :: real
  dr_size :: real

record out_page =
  op_page :: pdf_page
  op_drawn :: "draw_op list"

text \<open>
  The embedded font belongs to the PDF library, not to the repository, and is a parameter
  of the model. \<open>font.widthOfTextAtSize(text, size)\<close> returns a width or throws (a
  standard font throws on a character its encoding does not have), and
  \<open>page.drawText(text, {..., font})\<close> draws or throws: \<open>drawThrows\<close> gives the error
  thrown, if any.
\<close>

record font =
  widthOfTextAtSize :: "jsstring \<Rightarrow> real \<Rightarrow> js_error + real"
  drawThrows :: "jsstring \<Rightarrow> js_error option"

definition fontSize :: real where
  "fontSize = 9"

definition margin :: real where
  "margin = 25"

text \<open>
  \<open>fontSize * 1.3\<close>: the double nearest to the product of 9 and the double \<open>1.3\<close>,
  which is \<open>11.700000000000001\<close> and not \<open>11.7\<close>.
\<close>

definition lineHeight :: real where
  "lineHeight = 6586514455029351 / 562949953421312"

definition drawText :: "jsstring \<Rightarrow> real \<Rightarrow> draw_op" where
  "drawText line y = \<lparr>dr_text = line, dr_x = margin, dr_y = y, dr_size = fontSize\<rparr>"

text \<open>
  \<open>translatedText.split(/\n\n+/)\<close>: the separators are the maximal runs of two or more
  line feeds. The first argument is the piece collected so far.
\<close>

function splitParagraphs :: "jsstring \<Rightarrow> jsstring \<Rightarrow> jsstring list" where
  "splitParagraphs cur [] = [cur]"
| "splitParagraphs cur (c # cs) =
     (if c = 10 \<and> take 1 cs = [10]
      then cur # splitParagraphs [] (dropWhile (\<lambda>d. d = 10) cs)
      else splitParagraphs (cur @ [c]) cs)"
  by pat_completeness auto
termination
proof (relation "measure (\<lambda>(cur, s). length s)")
  show "wf (measure (\<lambda>(cur, s). length s))"
    by simp
next
  fix cur :: jsstring and c :: code_unit and cs :: jsstring
  have "length (dropWhile (\<lambda>d. d = 10) cs) \<le> length cs"
    by (rule length_dropWhile_le)
  then show "(([], dropWhile (\<lambda>d. d = 10) cs), (cur, c # cs)) \<in> measure (\<lambda>(cur, s). length s)"
    by simp
next
  fix cur :: jsstring and c :: code_unit and cs :: jsstring
  show "((cur @ [c], cs), (cur, c # cs)) \<in> measure (\<lambda>(cur, s). length s)"
    by simp
qed

text \<open>\<open>paragraph.split(/\s+/)\<close>: the separators are the maximal runs of whitespace.\<close>

function splitWhitespace :: "jsstring \<Rightarrow> jsstring \<Rightarrow> jsstring list" where
  "splitWhitespace cur [] = [cur]"
| "splitWhitespace cur (c # cs) =
     (if isSpace c
      then cur # splitWhitespace [] (dropWhile isSpace cs)
      else splitWhitespace (cur @ [c]) cs)"
  by pat_completeness auto
termination
proof (relation "measure (\<lambda>(cur, s). length s)")
  show "wf (measure (\<lambda>(cur, s). length s))"
    by simp
next
  fix cur :: jsstring and c :: code_unit and cs :: jsstring
  have "length (dropWhile isSpace cs) \<le> length cs"
    by (rule length_dropWhile_le)
  then show "(([], dropWhile isSpace cs), (cur, c # cs)) \<in> measure (\<lambda>(cur, s). length s)"
    by simp
next
  fix cur :: jsstring and c :: code_unit and cs :: jsstring
  show "((cur @ [c], cs), (cur, c # cs)) \<in> measure (\<lambda>(cur, s). length s)"
    by simp
qed

definition wordsOf :: "jsstring \<Rightarrow> jsstring list" where
  "wordsOf paragraph = filter (\<lambda>w. 0 < length w) (splitWhitespace [] paragraph)"

text \<open>
  The loop over the words of a paragraph. The state is \<open>line\<close>, the cursor \<open>y\<close> and
  the calls drawn so far; a \<open>break\<close> returns the state at once, and so does an
  exception, with the error thrown in the first component.
\<close>

fun wordLoop ::
  "font \<Rightarrow> real \<Rightarrow> jsstring \<times> real \<times> draw_op list \<Rightarrow> jsstring list
     \<Rightarrow> js_error option \<times> jsstring \<times> real \<times> draw_op list" where
  "wordLoop font maxWidth (line, y, drawn) [] = (None, line, y, drawn)"
| "wordLoop font maxWidth (line, y, drawn) (word # rest) =
     (case widthOfTextAtSize font (if line \<noteq> [] then line @ [32] @ word else word) fontSize of
        Inl e \<Rightarrow> (Some e, line, y, drawn)
      | Inr textWidth \<Rightarrow>
          if textWidth \<le> maxWidth
          then wordLoop font maxWidth
                 (if line \<noteq> [] then line @ [32] @ word else word, y, drawn) rest
          else if line \<noteq> [] then
            (case drawThrows font line of
               Some e \<Rightarrow> (Some e, line, y, drawn)
             | None \<Rightarrow>
                 if y - lineHeight < margin + lineHeight
                 then (None, word, y - lineHeight, drawn @ [drawText line y])
                 else wordLoop font maxWidth
                        (word, y - lineHeight, drawn @ [drawText line y]) rest)
          else if y < margin + lineHeight then (None, word, y, drawn)
          else wordLoop font maxWidth (word, y, drawn) rest)"

text \<open>The loop over the paragraphs; the state is the cursor and the calls drawn so far.\<close>

fun paragraphLoop ::
  "font \<Rightarrow> real \<Rightarrow> real \<times> draw_op list \<Rightarrow> jsstring list
     \<Rightarrow> js_error option \<times> real \<times> draw_op list" where
  "paragraphLoop font maxWidth (y, drawn) [] = (None, y, drawn)"
| "paragraphLoop font maxWidth (y, drawn) (paragraph # rest) =
     (case wordLoop font maxWidth ([], y, drawn) (wordsOf paragraph) of
        (Some e, line, y1, drawn1) \<Rightarrow> (Some e, y1, drawn1)
      | (None, line, y1, drawn1) \<Rightarrow>
          if line \<noteq> [] \<and> margin \<le> y1 then
            (case drawThrows font line of
               Some e \<Rightarrow> (Some e, y1, drawn1)
             | None \<Rightarrow>
                 if y1 - lineHeight - lineHeight * (1 / 2) < margin
                 then (None, y1 - lineHeight - lineHeight * (1 / 2), drawn1 @ [drawText line y1])
                 else paragraphLoop font maxWidth
                        (y1 - lineHeight - lineHeight * (1 / 2), drawn1 @ [drawText line y1]) rest)
          else if y1 - lineHeight * (1 / 2) < margin then (None, y1 - lineHeight * (1 / 2), drawn1)
          else paragraphLoop font maxWidth (y1 - lineHeight * (1 / 2), drawn1) rest)"

text \<open>
  The body of \<open>pages.forEach\<close> after \<open>addPage\<close>, for the page at \<open>index\<close>: the
  error it throws, if any, and the calls drawn on the page.
  \<open>translatedTexts[index] || ""\<close> is the empty string past the end.
\<close>

definition renderPage ::
  "font \<Rightarrow> jsstring list \<Rightarrow> nat \<Rightarrow> pdf_page \<Rightarrow> js_error option \<times> draw_op list" where
  "renderPage font translatedTexts index page =
     (let translatedText = (if index < length translatedTexts then translatedTexts ! index else [])
      in if translatedText = [] then (None, [])
         else (case paragraphLoop font (pg_width page - margin * 2) (pg_height page - margin, [])
                      (splitParagraphs [] translatedText) of
                 (err, y, drawn) \<Rightarrow> (err, drawn)))"

text \<open>
  \<open>pages.forEach\<close> runs the body on the pages in order, and an exception of the body
  ends it and rejects \<open>translatePdf\<close>. The body starts afresh on every page, so the
  document is what the body draws on each page, and the exception is that of the first
  page whose body throws. \<open>renderPages\<close> is the document when no page throws, the only
  case in which \<open>translatePdf\<close> saves and returns it; when a page throws
  (\<open>renderThrows\<close>), its entries up to that page are what was drawn before the
  exception, and the later pages were never reached.
\<close>

definition renderPages :: "font \<Rightarrow> jsstring list \<Rightarrow> pdf_page list \<Rightarrow> out_page list" where
  "renderPages font translatedTexts pages =
     map (\<lambda>(index, page).
            \<lparr>op_page = page, op_drawn = snd (renderPage font translatedTexts index page)\<rparr>)
       (enumerate 0 pages)"

definition renderThrows :: "font \<Rightarrow> jsstring list \<Rightarrow> pdf_page list \<Rightarrow> js_error option" where
  "renderThrows font translatedTexts pages =
     (case filter (\<lambda>err. err \<noteq> None)
             (map (\<lambda>(index, page). fst (renderPage font translatedTexts index page))
                (enumerate 0 pages)) of
        [] \<Rightarrow> None
      | err # errs \<Rightarrow> err)"

section \<open>\<open>extractTextWithMistralOCR\<close> and \<open>translatePdf\<close>\<close>

type_synonym buffer = "nat list"

record ocr_page =
  markdown :: jsstring
  pageNumber :: nat

text \<open>
  The OCR service rejects, or resolves to a response whose \<open>pages\<close> may be missing and
  whose pages may lack \<open>markdown\<close>.
\<close>

type_synonym ocr_response = "jsstring option list option"

definition extractTextWithMistralOCR :: "js_error + ocr_response \<Rightarrow> js_error + ocr_page list" where
  "extractTextWithMistralOCR ocrResponse =
     (case ocrResponse of
        Inl e \<Rightarrow> Inl (JsError (js ''Error'') (js ''OCR processing failed: '' @ err_message e))
      | Inr r \<Rightarrow>
          Inr (map (\<lambda>(index, page).
                  \<lparr>markdown = (case page of None \<Rightarrow> [] | Some m \<Rightarrow> m), pageNumber = index + 1\<rparr>)
                (enumerate 0 (case r of None \<Rightarrow> [] | Some ps \<Rightarrow> ps))))"

text \<open>
  The capabilities \<open>translatePdf\<close> consumes: the OCR service, the translation service,
  the PDF library loading the upload, creating the output document, embedding the font
  and copying the pages (\<open>Inl\<close> when one of these throws), the embedded font, and
  \<open>pdfDoc.save()\<close>, which gives the error it throws, if any. The saved document is
  modelled by its pages and what was drawn on them.
\<close>

record capabilities =
  cap_ocr :: "buffer \<Rightarrow> js_error + ocr_response"
  cap_fetch :: translation_service
  cap_copyPages :: "buffer \<Rightarrow> js_error + pdf_page list"
  cap_font :: font
  cap_save :: "out_page list \<Rightarrow> js_error option"

record translation_result =
  translatedPdf :: "out_page list"
  extractedTexts :: "jsstring list"
  translatedTexts :: "jsstring list"

definition translatePdf ::
  "capabilities \<Rightarrow> jsstring list \<Rightarrow> buffer \<Rightarrow> (js_error + translation_result) \<times> jsstring list" where
  "translatePdf caps sent pdfBuffer =
     (case extractTextWithMistralOCR (cap_ocr caps pdfBuffer) of
        Inl e \<Rightarrow> (Inl e, sent)
      | Inr ocrPages \<Rightarrow>
          (case translatePages (cap_fetch caps) (map markdown ocrPages) ([], [], sent) of
             (extracted, translated, sent') \<Rightarrow>
               (case cap_copyPages caps pdfBuffer of
                  Inl e \<Rightarrow> (Inl e, sent')
                | Inr pages \<Rightarrow>
                    (case renderThrows (cap_font caps) translated pages of
                       Some e \<Rightarrow> (Inl e, sent')
                     | None \<Rightarrow>
                         (case cap_save caps (renderPages (cap_font caps) translated pages) of
                            Some e \<Rightarrow> (Inl e, sent')
                          | None \<Rightarrow>
                              (Inr \<lparr>translatedPdf = renderPages (cap_font caps) translated pages,
                                    extractedTexts = extracted,
                                    translatedTexts = translated\<rparr>, sent'))))))"

section \<open>The job cache and the two routes\<close>

text \<open>
  \<open>translationCache\<close> is a map from job identifiers to entries. A pending
  \<open>setTimeout\<close> callback is the time it is due and the identifier it deletes. Time is
  the clock of \<open>Date.now()\<close>, in milliseconds. A handler runs at a time \<open>now\<close>; the
  callbacks due by then have run before it.
\<close>

record cache_entry =
  ce_translatedPdf :: "out_page list"
  ce_extractedTexts :: "jsstring list"
  ce_translatedTexts :: "jsstring list"
  ce_timestamp :: nat

record server =
  translationCache :: "jsstring \<rightharpoonup> cache_entry"
  timers :: "(nat \<times> jsstring) list"

definition ttl :: nat where
  "ttl = 30 * 60 * 1000"

definition fireTimers :: "nat \<Rightarrow> server \<Rightarrow> server" where
  "fireTimers now s =
     \<lparr>translationCache =
        foldl (\<lambda>cache (due, jobId). cache(jobId := None)) (translationCache s)
          (filter (\<lambda>(due, jobId). due \<le> now) (timers s)),
      timers = filter (\<lambda>(due, jobId). \<not> due \<le> now) (timers s)\<rparr>"

record upload =
  up_mimetype :: jsstring
  up_originalname :: jsstring
  up_buffer :: buffer

datatype reply =
    ErrorReply nat jsstring
  | JobReply jsstring jsstring nat "jsstring list" "jsstring list"
  | PdfReply "out_page list"

text \<open>
  \<open>POST /api/translate\<close>, completing at \<open>now\<close>; \<open>rnd\<close> is
  \<open>Math.random().toString(36).substring(7)\<close>.
\<close>

definition postTranslate ::
  "capabilities \<Rightarrow> nat \<Rightarrow> jsstring \<Rightarrow> upload option \<Rightarrow> server \<times> jsstring list
     \<Rightarrow> reply \<times> server \<times> jsstring list" where
  "postTranslate caps now rnd file st =
     (case st of (s0, sent) \<Rightarrow>
        (let s = fireTimers now s0 in
         case file of
           None \<Rightarrow> (ErrorReply 400 (js ''No file uploaded''), s, sent)
         | Some f \<Rightarrow>
             if up_mimetype f \<noteq> js ''application/pdf''
             then (ErrorReply 400 (js ''File must be a PDF''), s, sent)
             else
               (case translatePdf caps sent (up_buffer f) of
                  (Inl e, sent') \<Rightarrow> (ErrorReply 500 (err_message e), s, sent')
                | (Inr result, sent') \<Rightarrow>
                    (let jobId = showNat now @ rnd in
                     (JobReply jobId (up_originalname f) (length (extractedTexts result))
                        (extractedTexts result) (translatedTexts result),
                      \<lparr>translationCache = (translationCache s)(jobId \<mapsto>
                          \<lparr>ce_translatedPdf = translatedPdf result,
                           ce_extractedTexts = extractedTexts result,
                           ce_translatedTexts = translatedTexts result,
                           ce_timestamp = now\<rparr>),
                        timers = timers s @ [(now + ttl, jobId)]\<rparr>,
                      sent')))))"

text \<open>The reply to a download whose entry is missing.\<close>

definition notFound :: reply where
  "notFound = ErrorReply 404 (js ''Translation job not found or expired'')"

text \<open>\<open>GET /api/download/:jobId\<close> at \<open>now\<close>.\<close>

definition getDownload :: "nat \<Rightarrow> jsstring \<Rightarrow> server \<Rightarrow> reply \<times> server" where
  "getDownload now jobId s0 =
     (let s = fireTimers now s0 in
      case translationCache s jobId of
        None \<Rightarrow> (notFound, s)
      | Some cached \<Rightarrow> (PdfReply (ce_translatedPdf cached), s))"

text \<open>
  \<open>registerRoutes\<close> installs the two handlers; the server then handles requests one
  after the other, each at its time.
\<close>

datatype request = PostTranslate jsstring "upload option" | GetDownload jsstring

definition handle ::
  "capabilities \<Rightarrow> nat \<Rightarrow> request \<Rightarrow> server \<times> jsstring list \<Rightarrow> reply \<times> server \<times> jsstring list" where
  "handle caps now req st =
     (case req of
        PostTranslate rnd file \<Rightarrow> postTranslate caps now rnd file st
      | GetDownload jobId \<Rightarrow>
          (case st of (s, sent) \<Rightarrow>
             (case getDownload now jobId s of (r, s') \<Rightarrow> (r, s', sent))))"

fun serve ::
  "capabilities \<Rightarrow> (nat \<times> request) list \<Rightarrow> server \<times> jsstring list \<Rightarrow> server \<times> jsstring list" where
  "serve caps [] st = st"
| "serve caps ((now, req) # rest) st = serve caps rest (snd (handle caps now req st))"

text \<open>A request that, if its upload is translated, stores an entry under \<open>jobId\<close>.\<close>

definition insertsJob :: "jsstring \<Rightarrow> nat \<times> request \<Rightarrow> bool" where
  "insertsJob jobId ev =
     (case ev of
        (now, PostTranslate rnd file) \<Rightarrow> showNat now @ rnd = jobId
      | (now, GetDownload j) \<Rightarrow> False)"

section \<open>\<open>extractTextFromPdfPage\<close>: variant selection and line reconstruction\<close>

text \<open>
  The Tesseract pipeline kept in \<open>replit.md\<close>. The recognition engine is a
  parameter: for each preprocessing variant it gives \<open>result.data\<close>, whose
  \<open>confidence\<close> and \<open>words\<close> may be missing, as may every field of a word.
\<close>

datatype variant = Grayscale | Adaptive

record raw_bbox =
  rb_x0 :: "real option"
  rb_y0 :: "real option"
  rb_x1 :: "real option"
  rb_y1 :: "real option"

record raw_word =
  rw_text :: "jsstring option"
  rw_confidence :: "real option"
  rw_bbox :: "raw_bbox option"

record tess_data =
  td_text :: jsstring
  td_confidence :: "real option"
  td_words :: "raw_word list option"

record variant_result =
  vr_variant :: variant
  vr_result :: tess_data
  vr_confidence :: real

text \<open>\<open>x || 0\<close> on a number that may be missing.\<close>

definition orZero :: "real option \<Rightarrow> real" where
  "orZero x = (case x of None \<Rightarrow> 0 | Some v \<Rightarrow> v)"

text \<open>The loop over \<open>['grayscale', 'adaptive']\<close>, which fills \<open>results\<close>.\<close>

definition recognizeVariants :: "(variant \<Rightarrow> tess_data) \<Rightarrow> variant_result list" where
  "recognizeVariants recognize =
     map (\<lambda>v. \<lparr>vr_variant = v, vr_result = recognize v,
               vr_confidence = orZero (td_confidence (recognize v))\<rparr>)
       [Grayscale, Adaptive]"

text \<open>
  \<open>results.sort((a, b) => b.confidence - a.confidence)\<close>: \<open>Array.prototype.sort\<close> is
  stable, so this is the stable sort by descending confidence; \<open>results[0]\<close> is
  \<open>undefined\<close> (here \<open>None\<close>) on an empty array.
\<close>

definition sortByConfidence :: "variant_result list \<Rightarrow> variant_result list" where
  "sortByConfidence results = sort_key (\<lambda>r. - vr_confidence r) results"

definition bestResult :: "variant_result list \<Rightarrow> variant_result option" where
  "bestResult results = (case sortByConfidence results of [] \<Rightarrow> None | r # rs \<Rightarrow> Some r)"

definition selectVariant :: "(variant \<Rightarrow> tess_data) \<Rightarrow> variant_result option" where
  "selectVariant recognize = bestResult (recognizeVariants recognize)"

record bbox =
  bb_x0 :: real
  bb_y0 :: real
  bb_x1 :: real
  bb_y1 :: real

record ocr_word =
  w_text :: jsstring
  w_confidence :: real
  w_bbox :: bbox

record ocr_line =
  l_text :: jsstring
  l_confidence :: real
  l_bbox :: bbox
  l_words :: "ocr_word list"

definition toWord :: "raw_word \<Rightarrow> ocr_word" where
  "toWord w =
     \<lparr>w_text = (case rw_text w of None \<Rightarrow> [] | Some t \<Rightarrow> t),
      w_confidence = orZero (rw_confidence w),
      w_bbox =
        (case rw_bbox w of
           None \<Rightarrow> \<lparr>bb_x0 = 0, bb_y0 = 0, bb_x1 = 0, bb_y1 = 0\<rparr>
         | Some b \<Rightarrow> \<lparr>bb_x0 = orZero (rb_x0 b), bb_y0 = orZero (rb_y0 b),
                      bb_x1 = orZero (rb_x1 b), bb_y1 = orZero (rb_y1 b)\<rparr>)\<rparr>"

definition wordsOfData :: "tess_data \<Rightarrow> ocr_word list" where
  "wordsOfData d = (case td_words d of None \<Rightarrow> [] | Some ws \<Rightarrow> map toWord ws)"

definition yTolerance :: real where
  "yTolerance = 4"

text \<open>\<open>texts.join(' ')\<close>.\<close>

fun joinSpace :: "jsstring list \<Rightarrow> jsstring" where
  "joinSpace [] = []"
| "joinSpace [t] = t"
| "joinSpace (t # ts) = t @ [32] @ joinSpace ts"

text \<open>
  The line built from a non-empty \<open>currentLine\<close>, given as its first word and the rest:
  the joined text, the mean confidence, and the bounding box by \<open>Math.min\<close> and
  \<open>Math.max\<close> over the words.
\<close>

definition lineOf :: "ocr_word \<Rightarrow> ocr_word list \<Rightarrow> ocr_line" where
  "lineOf w ws =
     \<lparr>l_text = joinSpace (map w_text (w # ws)),
      l_confidence = foldl (\<lambda>sum v. sum + w_confidence v) 0 (w # ws) / real (length (w # ws)),
      l_bbox =
        \<lparr>bb_x0 = fold min (map (\<lambda>v. bb_x0 (w_bbox v)) ws) (bb_x0 (w_bbox w)),
         bb_y0 = fold min (map (\<lambda>v. bb_y0 (w_bbox v)) ws) (bb_y0 (w_bbox w)),
         bb_x1 = fold max (map (\<lambda>v. bb_x1 (w_bbox v)) ws) (bb_x1 (w_bbox w)),
         bb_y1 = fold max (map (\<lambda>v. bb_y1 (w_bbox v)) ws) (bb_y1 (w_bbox w))\<rparr>,
      l_words = w # ws\<rparr>"

text \<open>\<open>if (currentLine.length > 0) { ... lines.push(...) }\<close>.\<close>

definition pushLine :: "ocr_line list \<Rightarrow> ocr_word list \<Rightarrow> ocr_line list" where
  "pushLine lines currentLine =
     (case currentLine of [] \<Rightarrow> lines | w # ws \<Rightarrow> lines @ [lineOf w ws])"

text \<open>
  The loop from \<open>i = 1\<close> over \<open>sortedWords\<close>: \<open>prevWord\<close> is \<open>sortedWords[i - 1]\<close>,
  the state is \<open>lines\<close> and \<open>currentLine\<close>.
\<close>

fun lineLoop ::
  "ocr_word \<Rightarrow> ocr_word list \<Rightarrow> ocr_line list \<times> ocr_word list
     \<Rightarrow> ocr_line list \<times> ocr_word list" where
  "lineLoop prevWord [] st = st"
| "lineLoop prevWord (word # rest) (lines, currentLine) =
     (if \<bar>bb_y0 (w_bbox word) - bb_y0 (w_bbox prevWord)\<bar> < yTolerance
      then lineLoop word rest (lines, currentLine @ [word])
      else lineLoop word rest (pushLine lines currentLine, [word]))"

text \<open>
  \<open>[...words].sort((a, b) => a.bbox.y0 - b.bbox.y0)\<close> is the stable sort by \<open>y0\<close>.
\<close>

definition sortWords :: "ocr_word list \<Rightarrow> ocr_word list" where
  "sortWords words = sort_key (\<lambda>w. bb_y0 (w_bbox w)) words"

definition reconstructLines :: "ocr_word list \<Rightarrow> ocr_line list" where
  "reconstructLines words =
     (if 0 < length words then
        (case sortWords words of
           [] \<Rightarrow> []
         | first # rest \<Rightarrow>
             (case lineLoop first rest ([], [first]) of
                (lines, currentLine) \<Rightarrow> pushLine lines currentLine))
      else [])"

section \<open>The grouping the specification describes\<close>

text \<open>
  Section 4.4 of the specification, in its own words: walking the sorted sequence, a word
  starts a new line when \<open>newLine\<close> holds of its predecessor and itself, and otherwise
  joins the line of its predecessor. The criterion is a parameter, so that the loop of the
  code can be compared with the criterion the specification names.
\<close>

fun groupLines :: "(ocr_word \<Rightarrow> ocr_word \<Rightarrow> bool) \<Rightarrow> ocr_word list \<Rightarrow> ocr_word list list" where
  "groupLines newLine [] = []"
| "groupLines newLine [w] = [[w]]"
| "groupLines newLine (p # w # ws) =
     (if newLine p w then [p] # groupLines newLine (w # ws)
      else (case groupLines newLine (w # ws) of
              [] \<Rightarrow> [[p]]
            | g # gs \<Rightarrow> (p # g) # gs))"

section \<open>Invariants used in the proofs\<close>

text \<open>A line that fits the width, or is a single word (has no whitespace in it).\<close>

definition fitsOrSingle :: "font \<Rightarrow> real \<Rightarrow> jsstring \<Rightarrow> bool" where
  "fitsOrSingle font maxWidth l =
     ((\<exists>w. widthOfTextAtSize font l fontSize = Inr w \<and> w \<le> maxWidth)
      \<or> (\<forall>c \<in> set l. \<not> isSpace c))"

text \<open>A call drawn at the margin, at the font size, with such a line.\<close>

definition lineOk :: "font \<Rightarrow> real \<Rightarrow> draw_op \<Rightarrow> bool" where
  "lineOk font maxWidth d =
     (dr_size d = fontSize \<and> dr_x d = margin \<and> fitsOrSingle font maxWidth (dr_text d))"

text \<open>
  The entry of job \<open>j\<close>, due at \<open>D\<close>: every pending callback for \<open>j\<close> is due at
  \<open>D\<close>, and the entry is either still there with its callback pending, or gone.
\<close>

definition jobState :: "jsstring \<Rightarrow> nat \<Rightarrow> cache_entry \<Rightarrow> server \<Rightarrow> bool" where
  "jobState j D e s =
     ((\<forall>d. (d, j) \<in> set (timers s) \<longrightarrow> d = D) \<and>
      (translationCache s j = None \<or>
       (translationCache s j = Some e \<and> (D, j) \<in> set (timers s))))"

section \<open>Sample inputs\<close>

text \<open>
  A font for the closed examples: it encodes the code units below 256 and throws on any
  other, as a standard font does on a character outside its encoding; every code unit
  advances by 0.556 em, the advance of most lower-case letters of Helvetica.
\<close>

definition cannotEncode :: js_error where
  "cannotEncode = JsError (js ''Error'') (js ''WinAnsi cannot encode'')"

definition sampleFont :: font where
  "sampleFont =
     \<lparr>widthOfTextAtSize = (\<lambda>t sz. if list_all (\<lambda>c. c < 256) t
                                   then Inr (real (length t) * (sz * 556 / 1000))
                                   else Inl cannotEncode),
      drawThrows = (\<lambda>t. if list_all (\<lambda>c. c < 256) t then None else Some cannotEncode)\<rparr>"

text \<open>An A4 page, and a label 40 points high.\<close>

definition a4 :: pdf_page where
  "a4 = \<lparr>pg_width = 595, pg_height = 842, pg_content = 0\<rparr>"

definition label :: pdf_page where
  "label = \<lparr>pg_width = 595, pg_height = 40, pg_content = 1\<rparr>"

text \<open>
  A translation service whose first call is rejected with a network error, whose second
  call answers with status 503, whose third call answers with JSON of no accepted format,
  and whose later calls answer with a translation.
\<close>

definition sampleService :: translation_service where
  "sampleService sent t =
     (if length sent = 0 then Inl (JsError (js ''FetchError'') (js ''socket hang up''))
      else if length sent = 1 then
        Inr \<lparr>resp_ok = False, resp_status = 503, resp_text = Inr (js ''Service Unavailable''),
             resp_json = Inl (JsError (js ''FetchError'') (js ''invalid json response body''))\<rparr>
      else if length sent = 2 then
        Inr \<lparr>resp_ok = True, resp_status = 200, resp_text = Inr [],
             resp_json = Inr (JObj [(js ''error'', JStr (js ''Model is loading''))])\<rparr>
      else Inr \<lparr>resp_ok = True, resp_status = 200, resp_text = Inr [],
                resp_json = Inr (JArr [JObj [(js ''translation_text'',
                  JStr (js ''Fourth page in English''))]])\<rparr>)"

text \<open>
  An upload of five pages: the second has five characters, the others a line of text.
\<close>

definition sampleCaps :: capabilities where
  "sampleCaps =
     \<lparr>cap_ocr = (\<lambda>b. Inr (Some [Some (js ''## First page text''), Some (js ''stamp''),
                                 Some (js ''Second page text''), Some (js ''Third page text''),
                                 Some (js ''Fourth page text'')])),
      cap_fetch = sampleService,
      cap_copyPages = (\<lambda>b. Inr [a4, a4, a4, a4, a4]),
      cap_font = sampleFont,
      cap_save = (\<lambda>doc. None)\<rparr>"


definition sampleUpload :: upload where
  "sampleUpload = \<lparr>up_mimetype = js ''application/pdf'', up_originalname = js ''scan.pdf'',
                    up_buffer = [37, 80, 68, 70]\<rparr>"

definition emptyServer :: server where
  "emptyServer = \<lparr>translationCache = Map.empty, timers = []\<rparr>"

definition wordAt :: "real \<Rightarrow> ocr_word" where
  "wordAt y = \<lparr>w_text = js ''w'', w_confidence = 90,
               w_bbox = \<lparr>bb_x0 = 0, bb_y0 = y, bb_x1 = 30, bb_y1 = y + 12\<rparr>\<rparr>"

section \<open>Lemmas about the translation dispatcher\<close>

lemma trim_all_space: "(\<forall>c \<in> set s. isSpace c) \<Longrightarrow> trim s = []"
proof -
  assume "\<forall>c \<in> set s. isSpace c"
  then have d: "dropWhile isSpace s = []"
    by simp
  show ?thesis
    unfolding trim_def d by simp
qed

lemma length_trim_le: "length (trim s) \<le> length s"
proof -
  have "length (trim s) \<le> length (dropWhile isSpace s)"
    unfolding trim_def length_rev
    using length_dropWhile_le [of isSpace "rev (dropWhile isSpace s)"] by simp
  also have "\<dots> \<le> length s"
    by (rule length_dropWhile_le)
  finally show ?thesis .
qed

lemma snd_translateWithHuggingFace:
  "snd (translateWithHuggingFace fetch sent t) =
     (if t = [] \<or> length (trim t) = 0 then sent else sent @ [t])"
  by (simp add: translateWithHuggingFace_def split: sum.splits)

lemma translatePage_short:
  "length p \<le> 10 \<Longrightarrow> translatePage fetch sent p = ([], sent)"
  using length_trim_le [of p] by (simp add: translatePage_def)



lemma snd_translatePage:
  "snd (translatePage fetch sent p) =
     (if 10 < length (trim p) \<and> \<not> (cleanText p = [] \<or> length (trim (cleanText p)) = 0)
      then sent @ [cleanText p] else sent)"
proof (cases "p \<noteq> [] \<and> 10 < length (trim p)")
  case True
  obtain r s' where r: "translateWithHuggingFace fetch sent (cleanText p) = (r, s')"
    by (cases "translateWithHuggingFace fetch sent (cleanText p)")
  have "s' = (if cleanText p = [] \<or> length (trim (cleanText p)) = 0 then sent else sent @ [cleanText p])"
    using snd_translateWithHuggingFace [of fetch sent "cleanText p"] r by simp
  moreover have "snd (translatePage fetch sent p) = s'"
    using True r by (simp add: translatePage_def split: sum.splits json.splits)
  ultimately show ?thesis
    using True by simp
next
  case False
  then have "\<not> 10 < length (trim p)"
    by (auto simp: trim_def)
  with False show ?thesis
    by (simp add: translatePage_def)
qed

lemma translatePages_append:
  "translatePages fetch (ps @ qs) st = translatePages fetch qs (translatePages fetch ps st)"
proof (induction ps arbitrary: st)
  case Nil
  then show ?case by simp
next
  case (Cons p ps)
  obtain ex tr sent where st: "st = (ex, tr, sent)"
    by (cases st)
  show ?case
    unfolding st by (simp add: Cons.IH split: prod.splits)
qed

lemma translatePages_shape:
  "translatePages fetch ps (ex, tr, sent) = (ex', tr', sent') \<Longrightarrow>
     ex' = ex @ ps \<and> length tr' = length tr + length ps \<and> take (length tr) tr' = tr"
proof (induction ps arbitrary: ex tr sent)
  case Nil
  then show ?case by simp
next
  case (Cons p ps)
  obtain t s1 where p: "translatePage fetch sent p = (t, s1)"
    by (cases "translatePage fetch sent p")
  from Cons.prems p have run: "translatePages fetch ps (ex @ [p], tr @ [t], s1) = (ex', tr', sent')"
    by simp
  note ih = Cons.IH [OF run]
  from ih have "take (length tr) (take (Suc (length tr)) tr') = take (length tr) (tr @ [t])"
    by simp
  then have "take (length tr) tr' = tr"
    by (simp add: min_def)
  then show ?case
    using ih by simp
qed

lemma translatePages_nth:
  assumes "translatePages fetch ps ([], [], sent) = (ex, tr, sent')" and "i < length ps"
  shows "tr ! i = fst (translatePage fetch (sentBefore fetch ps sent i) (ps ! i))"
proof -
  have split: "ps = take i ps @ (ps ! i) # drop (Suc i) ps"
    using assms(2) by (simp add: id_take_nth_drop)
  obtain e1 t1 s1 where a: "translatePages fetch (take i ps) ([], [], sent) = (e1, t1, s1)"
    by (cases "translatePages fetch (take i ps) ([], [], sent)")
  have s1: "s1 = sentBefore fetch ps sent i"
    by (simp add: sentBefore_def a)
  have l1: "length t1 = i"
    using translatePages_shape [OF a] assms(2) by simp
  obtain t s2 where p: "translatePage fetch s1 (ps ! i) = (t, s2)"
    by (cases "translatePage fetch s1 (ps ! i)")
  have "translatePages fetch ps ([], [], sent)
      = translatePages fetch (drop (Suc i) ps) (e1 @ [ps ! i], t1 @ [t], s2)"
    by (subst split, subst translatePages_append) (simp add: a p)
  then have b: "translatePages fetch (drop (Suc i) ps) (e1 @ [ps ! i], t1 @ [t], s2) = (ex, tr, sent')"
    using assms(1) by simp
  have "take (length (t1 @ [t])) tr = t1 @ [t]"
    using translatePages_shape [OF b] by blast
  then have "take (Suc i) tr ! i = (t1 @ [t]) ! i"
    using l1 by simp
  moreover have "(t1 @ [t]) ! i = t"
    unfolding l1 [symmetric] by simp
  ultimately have "tr ! i = t"
    by simp
  then show ?thesis
    using p s1 by simp
qed

lemma translatePages_sent:
  "translatePages fetch ps (ex, tr, sent) = (ex', tr', sent') \<Longrightarrow>
     sent' = sent @ filter (\<lambda>t. \<not> (t = [] \<or> length (trim t) = 0))
          (map cleanText (filter (\<lambda>p. 10 < length (trim p)) ps))"
proof (induction ps arbitrary: ex tr sent)
  case Nil
  then show ?case by simp
next
  case (Cons p ps)
  obtain t s1 where p: "translatePage fetch sent p = (t, s1)"
    by (cases "translatePage fetch sent p")
  from Cons.prems p have run: "translatePages fetch ps (ex @ [p], tr @ [t], s1) = (ex', tr', sent')"
    by simp
  have s1: "s1 = (if 10 < length (trim p) \<and> \<not> (cleanText p = [] \<or> length (trim (cleanText p)) = 0)
      then sent @ [cleanText p] else sent)"
    using snd_translatePage [of fetch sent p] p by simp
  show ?case
    unfolding Cons.IH [OF run] s1 by simp
qed

lemma sentBefore_Suc:
  assumes "i < length ps"
  shows "sentBefore fetch ps sent (Suc i) = snd (translatePage fetch (sentBefore fetch ps sent i) (ps ! i))"
proof -
  obtain e1 t1 s1 where a: "translatePages fetch (take i ps) ([], [], sent) = (e1, t1, s1)"
    by (cases "translatePages fetch (take i ps) ([], [], sent)")
  obtain t s2 where p: "translatePage fetch s1 (ps ! i) = (t, s2)"
    by (cases "translatePage fetch s1 (ps ! i)")
  have "take (Suc i) ps = take i ps @ [ps ! i]"
    using assms by (rule take_Suc_conv_app_nth)
  then have "translatePages fetch (take (Suc i) ps) ([], [], sent) = (e1 @ [ps ! i], t1 @ [t], s2)"
    by (simp add: translatePages_append a p)
  then show ?thesis
    by (simp add: sentBefore_def a p)
qed

lemma translatePdf_Inr:
  assumes "translatePdf caps sent pdfBuffer = (Inr result, sent')"
  shows "\<exists>ocrPages pages.
      extractTextWithMistralOCR (cap_ocr caps pdfBuffer) = Inr ocrPages
    \<and> cap_copyPages caps pdfBuffer = Inr pages
    \<and> translatePages (cap_fetch caps) (map markdown ocrPages) ([], [], sent)
         = (extractedTexts result, translatedTexts result, sent')
    \<and> renderThrows (cap_font caps) (translatedTexts result) pages = None
    \<and> translatedPdf result = renderPages (cap_font caps) (translatedTexts result) pages"
  using assms
  by (auto simp: translatePdf_def split: sum.splits prod.splits option.splits)

lemma markdown_enumerate:
  "map markdown (map (\<lambda>(index, page). \<lparr>markdown = g page, pageNumber = index + 1\<rparr>)
     (enumerate n ps)) = map g ps"
  by (induction ps arbitrary: n) simp_all

lemma extractTextWithMistralOCR_texts:
  assumes "cap_ocr caps pdfBuffer = Inr r"
  shows "\<exists>ocrPages. extractTextWithMistralOCR (cap_ocr caps pdfBuffer) = Inr ocrPages
     \<and> map markdown ocrPages =
         (case r of None \<Rightarrow> [] | Some ps \<Rightarrow> map (\<lambda>p. case p of None \<Rightarrow> [] | Some m \<Rightarrow> m) ps)"
proof -
  define ocrPages where "ocrPages = map (\<lambda>(index, page).
        \<lparr>markdown = (case page of None \<Rightarrow> [] | Some m \<Rightarrow> m), pageNumber = index + 1\<rparr>)
      (enumerate 0 (case r of None \<Rightarrow> [] | Some ps \<Rightarrow> ps))"
  have ocr: "extractTextWithMistralOCR (cap_ocr caps pdfBuffer) = Inr ocrPages"
    unfolding ocrPages_def extractTextWithMistralOCR_def assms by simp
  have md: "map markdown ocrPages =
      (case r of None \<Rightarrow> [] | Some ps \<Rightarrow> map (\<lambda>p. case p of None \<Rightarrow> [] | Some m \<Rightarrow> m) ps)"
    unfolding ocrPages_def markdown_enumerate by (cases r) simp_all
  show ?thesis
    using ocr md by blast
qed

lemma translatePdf_outcome:
  assumes "cap_ocr caps pdfBuffer = Inr r" and "cap_copyPages caps pdfBuffer = Inr pages"
    and "translatePages (cap_fetch caps)
           (case r of None \<Rightarrow> [] | Some ps \<Rightarrow> map (\<lambda>p. case p of None \<Rightarrow> [] | Some m \<Rightarrow> m) ps)
           ([], [], sent) = (ex, tr, sent')"
  shows "translatePdf caps sent pdfBuffer =
     (case renderThrows (cap_font caps) tr pages of
        Some e \<Rightarrow> (Inl e, sent')
      | None \<Rightarrow>
          (case cap_save caps (renderPages (cap_font caps) tr pages) of
             Some e \<Rightarrow> (Inl e, sent')
           | None \<Rightarrow>
               (Inr \<lparr>translatedPdf = renderPages (cap_font caps) tr pages, extractedTexts = ex,
                     translatedTexts = tr\<rparr>, sent')))"
proof -
  obtain ocrPages :: "ocr_page list" where
      ocr: "extractTextWithMistralOCR (cap_ocr caps pdfBuffer) = Inr ocrPages"
    and md: "map markdown ocrPages =
         (case r of None \<Rightarrow> [] | Some ps \<Rightarrow> map (\<lambda>p. case p of None \<Rightarrow> [] | Some m \<Rightarrow> m) ps)"
    using extractTextWithMistralOCR_texts [OF assms(1)] by blast
  show ?thesis
    by (simp add: translatePdf_def ocr md assms(2,3))
qed




section \<open>Lemmas about the overlay\<close>

lemma wordLoop_Cons_cases [consumes 1, case_names throwWidth fits throwDraw flushBreak flushOn startBreak startOn]:
  assumes "wordLoop font mw (line, y, drawn) (w # ws) = res"
  obtains e where "widthOfTextAtSize font (if line \<noteq> [] then line @ [32] @ w else w) fontSize = Inl e"
      and "res = (Some e, line, y, drawn)"
  | tw where "widthOfTextAtSize font (if line \<noteq> [] then line @ [32] @ w else w) fontSize = Inr tw"
      and "tw \<le> mw"
      and "wordLoop font mw (if line \<noteq> [] then line @ [32] @ w else w, y, drawn) ws = res"
  | e where "line \<noteq> []" and "drawThrows font line = Some e" and "res = (Some e, line, y, drawn)"
  | "line \<noteq> []" and "drawThrows font line = None" and "y - lineHeight < margin + lineHeight"
      and "res = (None, w, y - lineHeight, drawn @ [drawText line y])"
  | "line \<noteq> []" and "drawThrows font line = None" and "\<not> y - lineHeight < margin + lineHeight"
      and "wordLoop font mw (w, y - lineHeight, drawn @ [drawText line y]) ws = res"
  | "line = []" and "y < margin + lineHeight" and "res = (None, w, y, drawn)"
  | "line = []" and "\<not> y < margin + lineHeight" and "wordLoop font mw (w, y, drawn) ws = res"
proof (cases "widthOfTextAtSize font (if line \<noteq> [] then line @ [32] @ w else w) fontSize")
  case (Inl e)
  then have "res = (Some e, line, y, drawn)"
    using assms by simp
  with Inl show ?thesis by (rule that(1))
next
  case (Inr tw)
  show ?thesis
  proof (cases "tw \<le> mw")
    case True
    then have "wordLoop font mw (if line \<noteq> [] then line @ [32] @ w else w, y, drawn) ws = res"
      using assms Inr by simp
    with Inr True show ?thesis by (rule that(2))
  next
    case wide: False
    show ?thesis
    proof (cases "line = []")
      case True
      show ?thesis
      proof (cases "y < margin + lineHeight")
        case br: True
        then have "res = (None, w, y, drawn)"
          using assms Inr wide True by simp
        with True br show ?thesis by (rule that(6))
      next
        case go: False
        then have "wordLoop font mw (w, y, drawn) ws = res"
          using assms Inr wide True by simp
        with True go show ?thesis by (rule that(7))
      qed
    next
      case ne: False
      show ?thesis
      proof (cases "drawThrows font line")
        case (Some e)
        then have "res = (Some e, line, y, drawn)"
          using assms Inr wide ne by simp
        with ne Some show ?thesis by (rule that(3))
      next
        case None
        show ?thesis
        proof (cases "y - lineHeight < margin + lineHeight")
          case br: True
          then have "res = (None, w, y - lineHeight, drawn @ [drawText line y])"
            using assms Inr wide ne None by simp
          with ne None br show ?thesis by (rule that(4))
        next
          case go: False
          then have "wordLoop font mw (w, y - lineHeight, drawn @ [drawText line y]) ws = res"
            using assms Inr wide ne None by simp
          with ne None go show ?thesis by (rule that(5))
        qed
      qed
    qed
  qed
qed

lemma paragraphLoop_Cons_cases [consumes 1, case_names throwWord throwDraw drawBreak drawOn skipBreak skipOn]:
  assumes "paragraphLoop font mw (y, drawn) (p # ps) = res"
  obtains e line ya da where "wordLoop font mw ([], y, drawn) (wordsOf p) = (Some e, line, ya, da)"
      and "res = (Some e, ya, da)"
  | e line ya da where "wordLoop font mw ([], y, drawn) (wordsOf p) = (None, line, ya, da)"
      and "line \<noteq> []" and "margin \<le> ya" and "drawThrows font line = Some e"
      and "res = (Some e, ya, da)"
  | line ya da where "wordLoop font mw ([], y, drawn) (wordsOf p) = (None, line, ya, da)"
      and "line \<noteq> []" and "margin \<le> ya" and "drawThrows font line = None"
      and "ya - lineHeight - lineHeight * (1 / 2) < margin"
      and "res = (None, ya - lineHeight - lineHeight * (1 / 2), da @ [drawText line ya])"
  | line ya da where "wordLoop font mw ([], y, drawn) (wordsOf p) = (None, line, ya, da)"
      and "line \<noteq> []" and "margin \<le> ya" and "drawThrows font line = None"
      and "\<not> ya - lineHeight - lineHeight * (1 / 2) < margin"
      and "paragraphLoop font mw (ya - lineHeight - lineHeight * (1 / 2), da @ [drawText line ya]) ps = res"
  | line ya da where "wordLoop font mw ([], y, drawn) (wordsOf p) = (None, line, ya, da)"
      and "\<not> (line \<noteq> [] \<and> margin \<le> ya)"
      and "ya - lineHeight * (1 / 2) < margin"
      and "res = (None, ya - lineHeight * (1 / 2), da)"
  | line ya da where "wordLoop font mw ([], y, drawn) (wordsOf p) = (None, line, ya, da)"
      and "\<not> (line \<noteq> [] \<and> margin \<le> ya)"
      and "\<not> ya - lineHeight * (1 / 2) < margin"
      and "paragraphLoop font mw (ya - lineHeight * (1 / 2), da) ps = res"
proof -
  obtain err line ya da where wl: "wordLoop font mw ([], y, drawn) (wordsOf p) = (err, line, ya, da)"
    by (cases "wordLoop font mw ([], y, drawn) (wordsOf p)")
  show ?thesis
  proof (cases err)
    case (Some e)
    then have "res = (Some e, ya, da)"
      using assms wl by simp
    with wl [unfolded Some] show ?thesis by (rule that(1))
  next
    case None
    note wl' = wl [unfolded None]
    show ?thesis
    proof (cases "line \<noteq> [] \<and> margin \<le> ya")
      case True
      then have ne: "line \<noteq> []" and ab: "margin \<le> ya" by simp_all
      show ?thesis
      proof (cases "drawThrows font line")
        case (Some e)
        then have "res = (Some e, ya, da)"
          using assms wl' ne ab by simp
        with wl' ne ab Some show ?thesis by (rule that(2))
      next
        case nothrow: None
        show ?thesis
        proof (cases "ya - lineHeight - lineHeight * (1 / 2) < margin")
          case br: True
          then have "res = (None, ya - lineHeight - lineHeight * (1 / 2), da @ [drawText line ya])"
            using assms wl' ne ab nothrow by simp
          with wl' ne ab nothrow br show ?thesis by (rule that(3))
        next
          case go: False
          then have "paragraphLoop font mw (ya - lineHeight - lineHeight * (1 / 2), da @ [drawText line ya]) ps = res"
            using assms wl' ne ab nothrow by simp
          with wl' ne ab nothrow go show ?thesis by (rule that(4))
        qed
      qed
    next
      case skip: False
      show ?thesis
      proof (cases "ya - lineHeight * (1 / 2) < margin")
        case br: True
        then have "res = (None, ya - lineHeight * (1 / 2), da)"
          using assms wl' skip by auto
        with wl' skip br show ?thesis by (rule that(5))
      next
        case go: False
        then have "paragraphLoop font mw (ya - lineHeight * (1 / 2), da) ps = res"
          using assms wl' skip by auto
        with wl' skip go show ?thesis by (rule that(6))
      qed
    qed
  qed
qed

lemma splitWhitespace_nospace:
  "(\<forall>c \<in> set cur. \<not> isSpace c) \<Longrightarrow>
     \<forall>w \<in> set (splitWhitespace cur s). \<forall>c \<in> set w. \<not> isSpace c"
proof (induction cur s rule: splitWhitespace.induct)
  case (1 cur)
  then show ?case by simp
next
  case (2 cur c cs)
  show ?case
  proof (cases "isSpace c")
    case True
    have e: "splitWhitespace cur (c # cs) = cur # splitWhitespace [] (dropWhile isSpace cs)"
      using True by simp
    have "\<forall>w\<in>set (splitWhitespace [] (dropWhile isSpace cs)). \<forall>c\<in>set w. \<not> isSpace c"
      using "2.IH"(1) [OF True] by simp
    then show ?thesis unfolding e using "2.prems" by simp
  next
    case False
    have e: "splitWhitespace cur (c # cs) = splitWhitespace (cur @ [c]) cs"
      using False by simp
    have "\<forall>c\<in>set (cur @ [c]). \<not> isSpace c"
      using False "2.prems" by simp
    then show ?thesis unfolding e using "2.IH"(2) [OF False] by blast
  qed
qed

lemma wordsOf_nospace: "w \<in> set (wordsOf p) \<Longrightarrow> c \<in> set w \<Longrightarrow> \<not> isSpace c"
  using splitWhitespace_nospace [of "[]" p] by (auto simp: wordsOf_def)

lemma lineOk_drawText:
  "fitsOrSingle font mw l \<Longrightarrow> lineOk font mw (drawText l y)"
  by (simp add: lineOk_def drawText_def)

lemma wordLoop_lineOk:
  assumes "\<forall>w \<in> set ws. \<forall>c \<in> set w. \<not> isSpace c"
    and "\<forall>d \<in> set drawn. lineOk font mw d"
    and "line = [] \<or> fitsOrSingle font mw line"
    and "wordLoop font mw (line, y, drawn) ws = (err, line', y', drawn')"
  shows "(\<forall>d \<in> set drawn'. lineOk font mw d) \<and> (line' = [] \<or> fitsOrSingle font mw line')"
  using assms
proof (induction ws arbitrary: line y drawn)
  case Nil
  then show ?case by simp
next
  case (Cons w ws)
  have w: "fitsOrSingle font mw w"
    using Cons.prems(1) by (simp add: fitsOrSingle_def)
  have ws: "\<forall>w \<in> set ws. \<forall>c \<in> set w. \<not> isSpace c"
    using Cons.prems(1) by simp
  have flushed: "\<forall>d \<in> set (drawn @ [drawText line y]). lineOk font mw d" if "line \<noteq> []"
    using Cons.prems(2,3) that lineOk_drawText [of font mw line y] by simp
  from Cons.prems(4) show ?case
  proof (cases rule: wordLoop_Cons_cases)
    case (throwWidth e)
    then show ?thesis using Cons.prems(2,3) by simp
  next
    case (fits tw)
    have "fitsOrSingle font mw (if line \<noteq> [] then line @ [32] @ w else w)"
      unfolding fitsOrSingle_def using fits(1,2) by blast
    then show ?thesis
      using Cons.IH [OF ws Cons.prems(2) _ fits(3)] by blast
  next
    case (throwDraw e)
    then show ?thesis using Cons.prems(2,3) by simp
  next
    case flushBreak
    then show ?thesis using flushed w by simp
  next
    case flushOn
    show ?thesis
      using Cons.IH [OF ws flushed [OF flushOn(1)] _ flushOn(4)] w by blast
  next
    case startBreak
    then show ?thesis using Cons.prems(2) w by simp
  next
    case startOn
    show ?thesis
      using Cons.IH [OF ws Cons.prems(2) _ startOn(3)] w by blast
  qed
qed

lemma paragraphLoop_lineOk:
  assumes "\<forall>d \<in> set drawn. lineOk font mw d"
    and "paragraphLoop font mw (y, drawn) ps = (err, y', drawn')"
  shows "\<forall>d \<in> set drawn'. lineOk font mw d"
  using assms
proof (induction ps arbitrary: y drawn)
  case Nil
  then show ?case by simp
next
  case (Cons p ps)
  have nosp: "\<forall>w \<in> set (wordsOf p). \<forall>c \<in> set w. \<not> isSpace c"
    using wordsOf_nospace by blast
  have inv: "(\<forall>d \<in> set da. lineOk font mw d) \<and> (l = [] \<or> fitsOrSingle font mw l)"
    if "wordLoop font mw ([], y, drawn) (wordsOf p) = (e, l, ya, da)" for e l ya da
    using wordLoop_lineOk [OF nosp Cons.prems(1) _ that] by simp
  have drawnOk: "\<forall>d \<in> set (da @ [drawText l ya]). lineOk font mw d"
    if "wordLoop font mw ([], y, drawn) (wordsOf p) = (e, l, ya, da)" and "l \<noteq> []" for e l ya da
    using inv [OF that(1)] that(2) lineOk_drawText [of font mw l ya] by simp
  from Cons.prems(2) show ?case
  proof (cases rule: paragraphLoop_Cons_cases)
    case (throwWord e line ya da)
    then show ?thesis using inv by blast
  next
    case (throwDraw e line ya da)
    then show ?thesis using inv by blast
  next
    case (drawBreak line ya da)
    then show ?thesis using drawnOk by blast
  next
    case (drawOn line ya da)
    show ?thesis
      using Cons.IH [OF drawnOk [OF drawOn(1,2)] drawOn(6)] .
  next
    case (skipBreak line ya da)
    then show ?thesis using inv by blast
  next
    case (skipOn line ya da)
    have "\<forall>d \<in> set da. lineOk font mw d" using inv [OF skipOn(1)] by simp
    then show ?thesis
      using Cons.IH [OF _ skipOn(4)] by blast
  qed
qed

lemma lineHeight_pos: "0 < lineHeight"
  by (simp add: lineHeight_def)

lemma wordLoop_y:
  assumes "margin \<le> y"
    and "\<forall>d \<in> set drawn. margin \<le> dr_y d"
    and "wordLoop font mw (line, y, drawn) ws = (err, line', y', drawn')"
  shows "\<forall>d \<in> set drawn'. margin \<le> dr_y d"
  using assms
proof (induction ws arbitrary: line y drawn)
  case Nil
  then show ?case by simp
next
  case (Cons w ws)
  have flushed: "\<forall>d \<in> set (drawn @ [drawText line y]). margin \<le> dr_y d"
    using Cons.prems(1,2) by (simp add: drawText_def)
  from Cons.prems(3) show ?case
  proof (cases rule: wordLoop_Cons_cases)
    case (throwWidth e)
    then show ?thesis using Cons.prems(2) by simp
  next
    case (fits tw)
    show ?thesis
      using Cons.IH [OF Cons.prems(1,2) fits(3)] .
  next
    case (throwDraw e)
    then show ?thesis using Cons.prems(2) by simp
  next
    case flushBreak
    then show ?thesis using flushed by simp
  next
    case flushOn
    have "margin \<le> y - lineHeight"
      using flushOn(3) lineHeight_pos by simp
    then show ?thesis
      using Cons.IH [OF _ flushed flushOn(4)] by blast
  next
    case startBreak
    then show ?thesis using Cons.prems(2) by simp
  next
    case startOn
    show ?thesis
      using Cons.IH [OF Cons.prems(1,2) startOn(3)] .
  qed
qed

lemma paragraphLoop_y:
  assumes "margin \<le> y"
    and "\<forall>d \<in> set drawn. margin \<le> dr_y d"
    and "paragraphLoop font mw (y, drawn) ps = (err, y', drawn')"
  shows "\<forall>d \<in> set drawn'. margin \<le> dr_y d"
  using assms
proof (induction ps arbitrary: y drawn)
  case Nil
  then show ?case by simp
next
  case (Cons p ps)
  have inv: "\<forall>d \<in> set da. margin \<le> dr_y d"
    if "wordLoop font mw ([], y, drawn) (wordsOf p) = (e, l, ya, da)" for e l ya da
    using wordLoop_y [OF Cons.prems(1,2) that] .
  have drawnOk: "\<forall>d \<in> set (da @ [drawText l ya]). margin \<le> dr_y d"
    if "wordLoop font mw ([], y, drawn) (wordsOf p) = (e, l, ya, da)" and "margin \<le> ya" for e l ya da
    using inv [OF that(1)] that(2) by (simp add: drawText_def)
  from Cons.prems(3) show ?case
  proof (cases rule: paragraphLoop_Cons_cases)
    case (throwWord e line ya da)
    then show ?thesis using inv by blast
  next
    case (throwDraw e line ya da)
    then show ?thesis using inv by blast
  next
    case (drawBreak line ya da)
    then show ?thesis using drawnOk by blast
  next
    case (drawOn line ya da)
    have "margin \<le> ya - lineHeight - lineHeight * (1 / 2)"
      using drawOn(5) by simp
    then show ?thesis
      using Cons.IH [OF _ drawnOk [OF drawOn(1,3)] drawOn(6)] by blast
  next
    case (skipBreak line ya da)
    then show ?thesis using inv by blast
  next
    case (skipOn line ya da)
    have "margin \<le> ya - lineHeight * (1 / 2)"
      using skipOn(3) by simp
    then show ?thesis
      using Cons.IH [OF _ inv [OF skipOn(1)] skipOn(4)] by blast
  qed
qed

lemma renderPage_paragraphs:
  assumes "d \<in> set (snd (renderPage font texts i page))"
  obtains err y drawn where
    "paragraphLoop font (pg_width page - margin * 2) (pg_height page - margin, [])
       (splitParagraphs [] (if i < length texts then texts ! i else [])) = (err, y, drawn)"
    and "d \<in> set drawn"
proof -
  define t where "t = (if i < length texts then texts ! i else [])"
  obtain err y drawn where pl:
    "paragraphLoop font (pg_width page - margin * 2) (pg_height page - margin, [])
       (splitParagraphs [] t) = (err, y, drawn)"
    by (cases "paragraphLoop font (pg_width page - margin * 2) (pg_height page - margin, [])
       (splitParagraphs [] t)")
  have "t \<noteq> []"
  proof
    assume "t = []"
    then have "renderPage font texts i page = (None, [])"
      by (simp add: renderPage_def Let_def t_def)
    then show False
      using assms by simp
  qed
  then have "snd (renderPage font texts i page) = drawn"
    using pl by (simp add: renderPage_def Let_def t_def)
  then have "d \<in> set drawn"
    using assms by simp
  with pl show ?thesis
    unfolding t_def by (rule that)
qed

lemma renderPage_lineOk:
  assumes "d \<in> set (snd (renderPage font texts i page))"
  shows "lineOk font (pg_width page - margin * 2) d"
  using assms
proof (cases rule: renderPage_paragraphs)
  case (1 err y drawn)
  show ?thesis
    using paragraphLoop_lineOk [OF _ 1(1)] 1(2) by simp
qed

lemma renderPage_y:
  assumes "2 * margin \<le> pg_height page" and "d \<in> set (snd (renderPage font texts i page))"
  shows "margin \<le> dr_y d"
  using assms(2)
proof (cases rule: renderPage_paragraphs)
  case (1 err y drawn)
  have "margin \<le> pg_height page - margin"
    using assms(1) by simp
  then show ?thesis
    using paragraphLoop_y [OF _ _ 1(1)] 1(2) by simp
qed

lemma isSpace_10: "isSpace 10"
  by (simp add: isSpace_def)

lemma splitWhitespace_word:
  "\<forall>c \<in> set s. \<not> isSpace c \<Longrightarrow> splitWhitespace cur s = [cur @ s]"
  by (induction s arbitrary: cur) simp_all

lemma splitParagraphs_word:
  "\<forall>c \<in> set s. \<not> isSpace c \<Longrightarrow> splitParagraphs cur s = [cur @ s]"
proof (induction s arbitrary: cur)
  case Nil
  then show ?case by simp
next
  case (Cons c s)
  then have "c \<noteq> 10" using isSpace_10 by auto
  then show ?case using Cons by simp
qed

lemma renderPage_single_word:
  assumes "t \<noteq> []" and "\<forall>c \<in> set t. \<not> isSpace c" and "2 * margin \<le> pg_height page"
    and "widthOfTextAtSize font t fontSize = Inr tw" and "drawThrows font t = None"
  shows "renderPage font [t] 0 page = (None, [drawText t (pg_height page - margin)])"
proof -
  define y where "y = pg_height page - margin"
  define mw where "mw = pg_width page - margin * 2"
  have y: "margin \<le> y" using assms(3) by (simp add: y_def)
  have w: "wordsOf t = [t]"
    using assms(1,2) by (simp add: wordsOf_def splitWhitespace_word)
  have wl: "wordLoop font mw ([], y, []) [t] = (None, t, y, [])"
    using assms(4) by simp
  have "\<exists>yb. paragraphLoop font mw (y, []) [t] = (None, yb, [drawText t y])"
    unfolding paragraphLoop.simps w wl using assms(1,5) y by simp
  then show ?thesis
    using assms(1,2) by (auto simp: renderPage_def splitParagraphs_word y_def mw_def)
qed

lemma renderPages_nth:
  "i < length pages \<Longrightarrow>
     renderPages font texts pages ! i =
       \<lparr>op_page = pages ! i, op_drawn = snd (renderPage font texts i (pages ! i))\<rparr>"
  by (simp add: renderPages_def nth_enumerate_eq)

lemma renderPages_pages: "map op_page (renderPages font texts pages) = pages"
proof -
  have "map op_page (map (\<lambda>(index, page).
        \<lparr>op_page = page, op_drawn = snd (renderPage font texts index page)\<rparr>)
      (enumerate n pages)) = pages" for n
    by (induction pages arbitrary: n) simp_all
  then show ?thesis
    by (simp add: renderPages_def del: map_map)
qed

lemma renderPage_empty:
  "(i < length texts \<longrightarrow> texts ! i = []) \<Longrightarrow> renderPage font texts i page = (None, [])"
  by (simp add: renderPage_def)

lemma sample_overlay:
  "renderPage sampleFont [js ''Fourth page in English''] 0 a4
     = (None, [drawText (js ''Fourth page in English'') 817])"
  by (simp add: renderPage_def a4_def sampleFont_def margin_def fontSize_def lineHeight_def
      wordsOf_def isSpace_def js_def drawText_def)

text \<open>
  On a page at least two margins high, no line is drawn below the bottom margin: the
  cursor starts at or above the margin, the inner loop leaves as soon as less than one
  line height is left above it, and the last line of a paragraph is guarded.
\<close>

lemma overlay_above_margin_on_tall_pages:
  assumes "i < length pages" and "2 * margin \<le> pg_height (pages ! i)"
    and "d \<in> set (op_drawn (renderPages font texts pages ! i))"
  shows "margin \<le> dr_y d"
proof -
  have d: "d \<in> set (snd (renderPage font texts i (pages ! i)))"
    using assms(1,3) by (simp add: renderPages_nth)
  show ?thesis
    using renderPage_y [OF assms(2) d] .
qed

section \<open>Lemmas about the job cache\<close>

lemma foldl_delete:
  "foldl (\<lambda>cache (due, jobId). cache(jobId := None)) c xs k =
     (if k \<in> snd ` set xs then None else c k)"
  by (induction xs arbitrary: c) (auto split: prod.splits)

lemma cache_fireTimers:
  "translationCache (fireTimers now s) k =
     (if \<exists>d \<le> now. (d, k) \<in> set (timers s) then None else translationCache s k)"
  unfolding fireTimers_def by (simp add: foldl_delete) force

lemma timers_fireTimers:
  "set (timers (fireTimers now s)) = {(d, j) \<in> set (timers s). now < d}"
  unfolding fireTimers_def by auto

text \<open>What a completed upload leaves in the server.\<close>

lemma postTranslate_cases:
  "postTranslate caps now rnd file (s, sent) = (r, s', sent') \<Longrightarrow>
     (s' = fireTimers now s \<and> (\<forall>a b c d e. r \<noteq> JobReply a b c d e)) \<or>
     (\<exists>f result. file = Some f \<and> translatePdf caps sent (up_buffer f) = (Inr result, sent')
        \<and> r = JobReply (showNat now @ rnd) (up_originalname f) (length (extractedTexts result))
              (extractedTexts result) (translatedTexts result)
        \<and> translationCache s' = (translationCache (fireTimers now s))(showNat now @ rnd \<mapsto>
              \<lparr>ce_translatedPdf = translatedPdf result, ce_extractedTexts = extractedTexts result,
               ce_translatedTexts = translatedTexts result, ce_timestamp = now\<rparr>)
        \<and> timers s' = timers (fireTimers now s) @ [(now + ttl, showNat now @ rnd)])"
  by (auto simp: postTranslate_def Let_def split: option.splits if_splits prod.splits sum.splits)

lemma jobState_fireTimers:
  assumes "jobState j D e s"
  shows "jobState j D e (fireTimers now s)"
    and "now < D \<Longrightarrow> translationCache (fireTimers now s) j = translationCache s j"
    and "D \<le> now \<Longrightarrow> translationCache (fireTimers now s) j = None"
proof -
  have only: "(d, j) \<in> set (timers s) \<Longrightarrow> d = D" for d
    using assms by (simp add: jobState_def)
  have entry: "translationCache s j = None \<or> (translationCache s j = Some e \<and> (D, j) \<in> set (timers s))"
    using assms by (simp add: jobState_def)
  have sub: "(d, j) \<in> set (timers (fireTimers now s)) \<longleftrightarrow> (d, j) \<in> set (timers s) \<and> now < d" for d
    unfolding timers_fireTimers by simp
  have early: "translationCache (fireTimers now s) j = translationCache s j" if "now < D"
  proof -
    have "(\<exists>d \<le> now. (d, j) \<in> set (timers s)) = False"
      using only that by fastforce
    then show ?thesis
      unfolding cache_fireTimers by (simp only: if_False)
  qed
  have late: "translationCache (fireTimers now s) j = None" if "D \<le> now"
  proof (cases "(D, j) \<in> set (timers s)")
    case True
    then have "(\<exists>d \<le> now. (d, j) \<in> set (timers s)) = True"
      using that by blast
    then show ?thesis
      unfolding cache_fireTimers by (simp only: if_True)
  next
    case False
    then have "translationCache s j = None"
      using entry by simp
    then show ?thesis
      unfolding cache_fireTimers by simp
  qed
  show "now < D \<Longrightarrow> translationCache (fireTimers now s) j = translationCache s j"
    by (rule early)
  show "D \<le> now \<Longrightarrow> translationCache (fireTimers now s) j = None"
    by (rule late)
  show "jobState j D e (fireTimers now s)"
  proof (cases "now < D")
    case True
    show ?thesis
      unfolding jobState_def sub early [OF True] using only entry True by blast
  next
    case False
    then have "translationCache (fireTimers now s) j = None"
      using late by simp
    then show ?thesis
      unfolding jobState_def sub using only by blast
  qed
qed

lemma handle_jobState:
  assumes "jobState j D e s" and "\<not> insertsJob j (now, req)"
    and "handle caps now req (s, sent) = (r, s', sent')"
  shows "jobState j D e s'"
    and "now < D \<Longrightarrow> translationCache s' j = translationCache s j"
proof -
  note ft = jobState_fireTimers [OF assms(1), of now]
  have both: "jobState j D e s' \<and> (now < D \<longrightarrow> translationCache s' j = translationCache s j)"
  proof (cases req)
    case (GetDownload k)
    then have "s' = fireTimers now s"
      using assms(3) by (auto simp: handle_def getDownload_def Let_def split: option.splits)
    then show ?thesis using ft by simp
  next
    case (PostTranslate rnd upl)
    then have post: "postTranslate caps now rnd upl (s, sent) = (r, s', sent')"
      using assms(3) by (simp add: handle_def)
    have ne: "showNat now @ rnd \<noteq> j"
      using assms(2) PostTranslate by (simp add: insertsJob_def)
    from postTranslate_cases [OF post] show ?thesis
    proof
      assume "s' = fireTimers now s \<and> (\<forall>a b c d e. r \<noteq> JobReply a b c d e)"
      then show ?thesis using ft by simp
    next
      assume "\<exists>f result. upl = Some f \<and> translatePdf caps sent (up_buffer f) = (Inr result, sent')
        \<and> r = JobReply (showNat now @ rnd) (up_originalname f) (length (extractedTexts result))
              (extractedTexts result) (translatedTexts result)
        \<and> translationCache s' = (translationCache (fireTimers now s))(showNat now @ rnd \<mapsto>
              \<lparr>ce_translatedPdf = translatedPdf result, ce_extractedTexts = extractedTexts result,
               ce_translatedTexts = translatedTexts result, ce_timestamp = now\<rparr>)
        \<and> timers s' = timers (fireTimers now s) @ [(now + ttl, showNat now @ rnd)]"
      then obtain en where c: "translationCache s' = (translationCache (fireTimers now s))(showNat now @ rnd \<mapsto> en)"
        and t: "timers s' = timers (fireTimers now s) @ [(now + ttl, showNat now @ rnd)]"
        by blast
      have cj: "translationCache s' j = translationCache (fireTimers now s) j"
        using c ne by simp
      have tj: "(d, j) \<in> set (timers s') \<longleftrightarrow> (d, j) \<in> set (timers (fireTimers now s))" for d
        using t ne by auto
      have "jobState j D e s'"
        using ft(1) unfolding jobState_def cj tj .
      then show ?thesis using cj ft(2) by simp
    qed
  qed
  show "jobState j D e s'" using both by simp
  show "now < D \<Longrightarrow> translationCache s' j = translationCache s j" using both by simp
qed

lemma serve_jobState:
  assumes "jobState j D e s" and "\<forall>ev \<in> set evs. \<not> insertsJob j ev"
    and "serve caps evs (s, sent) = (s', sent')"
  shows "jobState j D e s'"
    and "\<forall>ev \<in> set evs. fst ev < D \<Longrightarrow> translationCache s' j = translationCache s j"
proof -
  have "jobState j D e s' \<and> ((\<forall>ev \<in> set evs. fst ev < D) \<longrightarrow> translationCache s' j = translationCache s j)"
    using assms
  proof (induction evs arbitrary: s sent)
    case Nil
    then show ?case by simp
  next
    case (Cons ev evs)
    obtain now req where ev: "ev = (now, req)" by (cases ev)
    obtain r s1 sent1 where h: "handle caps now req (s, sent) = (r, s1, sent1)"
      by (cases "handle caps now req (s, sent)")
    have ni: "\<not> insertsJob j (now, req)" using Cons.prems(2) ev by simp
    note st = handle_jobState [OF Cons.prems(1) ni h]
    have run: "serve caps evs (s1, sent1) = (s', sent')"
      using Cons.prems(3) ev h by simp
    have rest: "\<forall>ev \<in> set evs. \<not> insertsJob j ev" using Cons.prems(2) by simp
    have ih: "jobState j D e s' \<and> ((\<forall>ev \<in> set evs. fst ev < D) \<longrightarrow> translationCache s' j = translationCache s1 j)"
      using Cons.IH [OF st(1) rest run] .
    show ?case
    proof (intro conjI impI)
      show "jobState j D e s'" using ih by simp
    next
      assume a: "\<forall>ev \<in> set (ev # evs). fst ev < D"
      then have "now < D" and "\<forall>ev \<in> set evs. fst ev < D"
        using ev by simp_all
      then show "translationCache s' j = translationCache s j"
        using ih st(2) by simp
    qed
  qed
  then show "jobState j D e s'"
    and "\<forall>ev \<in> set evs. fst ev < D \<Longrightarrow> translationCache s' j = translationCache s j"
    by simp_all
qed

lemma getDownload_found:
  "translationCache (fireTimers t s) j = Some e \<Longrightarrow> fst (getDownload t j s) = PdfReply (ce_translatedPdf e)"
  by (simp add: getDownload_def Let_def)

lemma getDownload_missing:
  "translationCache (fireTimers t s) j = None \<Longrightarrow>
     fst (getDownload t j s) = notFound \<and> translationCache (snd (getDownload t j s)) j = None"
  by (simp add: getDownload_def Let_def notFound_def)


lemma postTranslate_stores:
  assumes "up_mimetype f = js ''application/pdf''"
    and "translatePdf caps sent (up_buffer f) = (Inr result, sent1)"
  shows "postTranslate caps now rnd (Some f) (s, sent) =
     (JobReply (showNat now @ rnd) (up_originalname f) (length (extractedTexts result))
        (extractedTexts result) (translatedTexts result),
      \<lparr>translationCache = (translationCache (fireTimers now s))(showNat now @ rnd \<mapsto>
          \<lparr>ce_translatedPdf = translatedPdf result, ce_extractedTexts = extractedTexts result,
           ce_translatedTexts = translatedTexts result, ce_timestamp = now\<rparr>),
        timers = timers (fireTimers now s) @ [(now + ttl, showNat now @ rnd)]\<rparr>,
      sent1)"
  using assms by (simp add: postTranslate_def Let_def)



section \<open>Lemmas about variant selection and line reconstruction\<close>

lemma groupLines_Cons: "\<exists>g gs. groupLines nl (x # xs) = (x # g) # gs"
proof (induction xs arbitrary: x)
  case Nil
  then show ?case by simp
next
  case (Cons a xs)
  obtain g gs where "groupLines nl (a # xs) = (a # g) # gs"
    using Cons.IH by blast
  then show ?case by simp
qed

lemma concat_groupLines: "concat (groupLines nl xs) = xs"
proof (induction nl xs rule: groupLines.induct)
  case (3 nl p w ws)
  obtain g gs where g: "groupLines nl (w # ws) = (w # g) # gs"
    using groupLines_Cons by blast
  show ?case
  proof (cases "nl p w")
    case True
    then show ?thesis using 3 by simp
  next
    case False
    then show ?thesis using "3.IH"(2) g by simp
  qed
qed simp_all

lemma groupLines_nonempty: "[] \<notin> set (groupLines nl xs)"
proof (induction nl xs rule: groupLines.induct)
  case (3 nl p w ws)
  obtain g gs where g: "groupLines nl (w # ws) = (w # g) # gs"
    using groupLines_Cons by blast
  show ?case
  proof (cases "nl p w")
    case True
    then show ?thesis using 3 by simp
  next
    case False
    then show ?thesis using "3.IH"(2) g by simp
  qed
qed simp_all

lemma length_groupLines: "length (groupLines nl xs) \<le> length xs"
proof (induction nl xs rule: groupLines.induct)
  case (3 nl p w ws)
  obtain g gs where g: "groupLines nl (w # ws) = (w # g) # gs"
    using groupLines_Cons by blast
  show ?case
  proof (cases "nl p w")
    case True
    then show ?thesis using 3 by simp
  next
    case False
    then show ?thesis using "3.IH"(2) g by simp
  qed
qed simp_all

lemma l_words_pushLine:
  "map l_words (pushLine lines cur) = map l_words lines @ (if cur = [] then [] else [cur])"
  by (cases cur) (simp_all add: pushLine_def lineOf_def)

lemma lineLoop_groupLines:
  assumes "cur \<noteq> []" and "last cur = prev"
    and "lineLoop prev rest (lines, cur) = (lines', cur')"
  shows "map l_words (pushLine lines' cur') =
     map l_words lines @
       (case groupLines (\<lambda>p w. \<not> \<bar>bb_y0 (w_bbox w) - bb_y0 (w_bbox p)\<bar> < yTolerance) (prev # rest) of
          [] \<Rightarrow> []
        | g # gs \<Rightarrow> (butlast cur @ g) # gs)"
  using assms
proof (induction rest arbitrary: prev lines cur)
  case Nil
  then have "lines' = lines" "cur' = cur" by simp_all
  moreover have "butlast cur @ [prev] = cur"
    using Nil.prems(1,2) by (metis append_butlast_last_id)
  ultimately show ?case
    using Nil.prems(1) by (simp add: l_words_pushLine)
next
  case (Cons word rest)
  let ?nl = "\<lambda>p w. \<not> \<bar>bb_y0 (w_bbox w) - bb_y0 (w_bbox p)\<bar> < yTolerance"
  obtain g gs where g: "groupLines ?nl (word # rest) = (word # g) # gs"
    using groupLines_Cons by blast
  have cur: "butlast cur @ [prev] = cur"
    using Cons.prems(1,2) by (metis append_butlast_last_id)
  show ?case
  proof (cases "\<bar>bb_y0 (w_bbox word) - bb_y0 (w_bbox prev)\<bar> < yTolerance")
    case True
    then have run: "lineLoop word rest (lines, cur @ [word]) = (lines', cur')"
      using Cons.prems(3) by simp
    have "map l_words (pushLine lines' cur') = map l_words lines @ [(cur @ word # g)] @ gs"
      using Cons.IH [OF _ _ run] g by simp
    moreover have "groupLines ?nl (prev # word # rest) = (prev # word # g) # gs"
      using True g by simp
    moreover have "butlast cur @ prev # word # g = cur @ word # g"
      using cur by (metis append.assoc append_Cons append_Nil)
    ultimately show ?thesis by simp
  next
    case False
    then have run: "lineLoop word rest (pushLine lines cur, [word]) = (lines', cur')"
      using Cons.prems(3) by simp
    have "map l_words (pushLine lines' cur') = map l_words (pushLine lines cur) @ [word # g] @ gs"
      using Cons.IH [OF _ _ run] g by simp
    then have "map l_words (pushLine lines' cur') = map l_words lines @ [cur] @ [word # g] @ gs"
      using Cons.prems(1) by (simp add: l_words_pushLine)
    moreover have "groupLines ?nl (prev # word # rest) = [prev] # (word # g) # gs"
      using False g by simp
    ultimately show ?thesis using cur by simp
  qed
qed

lemma reconstructLines_groupLines:
  "map l_words (reconstructLines ws) =
     groupLines (\<lambda>p w. \<not> \<bar>bb_y0 (w_bbox w) - bb_y0 (w_bbox p)\<bar> < yTolerance) (sortWords ws)"
proof (cases "sortWords ws")
  case Nil
  then have "length ws = 0"
    using length_sort [of "\<lambda>w. bb_y0 (w_bbox w)" ws] by (simp add: sortWords_def)
  then have "ws = []"
    by simp
  then show ?thesis
    by (simp add: reconstructLines_def sortWords_def)
next
  case (Cons first rest)
  then have "length ws = Suc (length rest)"
    using length_sort [of "\<lambda>w. bb_y0 (w_bbox w)" ws] by (simp add: sortWords_def)
  then have ne: "0 < length ws"
    by simp
  obtain lines cur where ll: "lineLoop first rest ([], [first]) = (lines, cur)"
    by (cases "lineLoop first rest ([], [first])")
  let ?nl = "\<lambda>p w. \<not> \<bar>bb_y0 (w_bbox w) - bb_y0 (w_bbox p)\<bar> < yTolerance"
  obtain g gs where g: "groupLines ?nl (first # rest) = (first # g) # gs"
    using groupLines_Cons by blast
  have "map l_words (pushLine lines cur) = groupLines ?nl (first # rest)"
    using lineLoop_groupLines [OF _ _ ll] g by simp
  moreover have "reconstructLines ws = pushLine lines cur"
    using ne Cons ll by (simp add: reconstructLines_def)
  ultimately show ?thesis
    using Cons by simp
qed

lemma bestResult_first_max:
  assumes "results \<noteq> []"
  shows "\<exists>pre r post. bestResult results = Some r \<and> results = pre @ r # post
     \<and> (\<forall>x \<in> set pre. vr_confidence x < vr_confidence r)
     \<and> (\<forall>x \<in> set post. vr_confidence x \<le> vr_confidence r)"
proof -
  let ?f = "\<lambda>r. - vr_confidence r"
  have "length (sort_key ?f results) = length results"
    by (rule length_sort)
  then obtain r rs where srt: "sort_key ?f results = r # rs"
    using assms by (cases "sort_key ?f results") auto
  have best: "bestResult results = Some r"
    by (simp add: bestResult_def sortByConfidence_def srt)
  have "sorted (map ?f (r # rs))"
    using sorted_sort_key [of ?f results] srt by simp
  then have le_rs: "\<forall>x \<in> set rs. ?f r \<le> ?f x"
    by simp
  have "set (r # rs) = set results"
    using set_sort [of ?f results] srt by simp
  then have le: "\<forall>x \<in> set results. vr_confidence x \<le> vr_confidence r"
    using le_rs by auto
  have "filter (\<lambda>y. ?f y = ?f r) results = filter (\<lambda>y. ?f y = ?f r) (sort_key ?f results)"
    by (rule sort_key_stable [symmetric])
  also have "\<dots> = r # filter (\<lambda>y. ?f y = ?f r) rs"
    by (simp add: srt)
  finally obtain pre post where split: "results = pre @ r # post"
    and pre: "\<forall>u \<in> set pre. \<not> ?f u = ?f r"
    unfolding filter_eq_Cons_iff by blast
  have "\<forall>x \<in> set pre. vr_confidence x < vr_confidence r"
  proof
    fix x assume x: "x \<in> set pre"
    then have "vr_confidence x \<le> vr_confidence r" using le split by simp
    moreover have "vr_confidence x \<noteq> vr_confidence r" using pre x by auto
    ultimately show "vr_confidence x < vr_confidence r" by simp
  qed
  moreover have "\<forall>x \<in> set post. vr_confidence x \<le> vr_confidence r"
    using le split by simp
  ultimately show ?thesis
    using best split by blast
qed

lemma selectVariant_two:
  "selectVariant recognize =
     Some \<lparr>vr_variant = (if orZero (td_confidence (recognize Grayscale))
                             < orZero (td_confidence (recognize Adaptive))
                          then Adaptive else Grayscale),
           vr_result = recognize (if orZero (td_confidence (recognize Grayscale))
                             < orZero (td_confidence (recognize Adaptive))
                          then Adaptive else Grayscale),
           vr_confidence = max (orZero (td_confidence (recognize Grayscale)))
                             (orZero (td_confidence (recognize Adaptive)))\<rparr>"
  by (simp add: selectVariant_def bestResult_def sortByConfidence_def recognizeVariants_def max_def)

lemma scenarioD:
  assumes "map (\<lambda>w. bb_y0 (w_bbox w)) ws = [10, 11, 40]"
  shows "map (\<lambda>l. map (\<lambda>w. bb_y0 (w_bbox w)) (l_words l)) (reconstructLines ws) = [[10, 11], [40]]"
proof -
  obtain a b c where ws: "ws = [a, b, c]"
    and y: "bb_y0 (w_bbox a) = 10" "bb_y0 (w_bbox b) = 11" "bb_y0 (w_bbox c) = 40"
    using assms by (auto simp: map_eq_Cons_conv)
  have "sortWords ws = [a, b, c]"
    by (simp add: sortWords_def ws y)
  then have "map l_words (reconstructLines ws) = [[a, b], [c]]"
    unfolding reconstructLines_groupLines by (simp add: y yTolerance_def)
  then have "map (map (\<lambda>w. bb_y0 (w_bbox w))) (map l_words (reconstructLines ws)) = [[10, 11], [40]]"
    by (simp add: y)
  then show ?thesis
    by (simp add: comp_def)
qed

section \<open>The sample uploads\<close>

text \<open>The sample uploads, run through the page loop, the overlay and \<open>translatePdf\<close>.\<close>

lemma sample_pages:
  "translatePages sampleService
     [js ''## First page text'', js ''stamp'', js ''Second page text'', js ''Third page text'',
      js ''Fourth page text''] ([], [], [])
   = ([js ''## First page text'', js ''stamp'', js ''Second page text'', js ''Third page text'',
       js ''Fourth page text''],
      [js ''[Translation failed: FetchError: socket hang up]'', [],
       js ''[Translation failed: Error: Translation failed: 503 - Service Unavailable]'',
       js ''[Translation failed: Error: Invalid translation response format]'',
       js ''Fourth page in English''],
      [js ''First page text'', js ''Second page text'', js ''Third page text'',
       js ''Fourth page text''])"
  by (simp add: translatePage_def translateWithHuggingFace_def parseResult_def cleanText_def
      trim_def isSpace_def isLineTerminator_def js_def removeStars_def removeBackticks_def
      sampleService_def failureMarker_def showNat.simps)

lemma sample_render:
  "renderThrows sampleFont
     [js ''[Translation failed: FetchError: socket hang up]'', [],
      js ''[Translation failed: Error: Translation failed: 503 - Service Unavailable]'',
      js ''[Translation failed: Error: Invalid translation response format]'',
      js ''Fourth page in English'']
     [a4, a4, a4, a4, a4] = None"
  by (simp add: renderThrows_def renderPage_def a4_def sampleFont_def margin_def fontSize_def
      lineHeight_def wordsOf_def isSpace_def js_def drawText_def)

lemma sample_ocr:
  "cap_ocr sampleCaps (up_buffer sampleUpload) =
     Inr (Some [Some (js ''## First page text''), Some (js ''stamp''),
                Some (js ''Second page text''), Some (js ''Third page text''),
                Some (js ''Fourth page text'')])"
  by (simp add: sampleCaps_def)

lemma sample_loop:
  "translatePages (cap_fetch sampleCaps)
     (case Some [Some (js ''## First page text''), Some (js ''stamp''),
                 Some (js ''Second page text''), Some (js ''Third page text''),
                 Some (js ''Fourth page text'')] of
        None \<Rightarrow> [] | Some ps \<Rightarrow> map (\<lambda>p. case p of None \<Rightarrow> [] | Some m \<Rightarrow> m) ps)
     ([], [], [])
   = ([js ''## First page text'', js ''stamp'', js ''Second page text'', js ''Third page text'',
       js ''Fourth page text''],
      [js ''[Translation failed: FetchError: socket hang up]'', [],
       js ''[Translation failed: Error: Translation failed: 503 - Service Unavailable]'',
       js ''[Translation failed: Error: Invalid translation response format]'',
       js ''Fourth page in English''],
      [js ''First page text'', js ''Second page text'', js ''Third page text'',
       js ''Fourth page text''])"
proof -
  have "cap_fetch sampleCaps = sampleService"
    by (simp add: sampleCaps_def)
  then show ?thesis
    using sample_pages by simp
qed

lemma sample_run:
  "translatePdf sampleCaps [] (up_buffer sampleUpload) =
     (Inr \<lparr>translatedPdf = renderPages sampleFont
              [js ''[Translation failed: FetchError: socket hang up]'', [],
               js ''[Translation failed: Error: Translation failed: 503 - Service Unavailable]'',
               js ''[Translation failed: Error: Invalid translation response format]'',
               js ''Fourth page in English'']
              [a4, a4, a4, a4, a4],
           extractedTexts = [js ''## First page text'', js ''stamp'', js ''Second page text'',
              js ''Third page text'', js ''Fourth page text''],
           translatedTexts =
              [js ''[Translation failed: FetchError: socket hang up]'', [],
               js ''[Translation failed: Error: Translation failed: 503 - Service Unavailable]'',
               js ''[Translation failed: Error: Invalid translation response format]'',
               js ''Fourth page in English'']\<rparr>,
      [js ''First page text'', js ''Second page text'', js ''Third page text'',
       js ''Fourth page text''])"
proof -
  have copy: "cap_copyPages sampleCaps (up_buffer sampleUpload) = Inr [a4, a4, a4, a4, a4]"
    by (simp add: sampleCaps_def)
  have f: "cap_font sampleCaps = sampleFont" and sv: "cap_save sampleCaps = (\<lambda>doc. None)"
    by (simp_all add: sampleCaps_def)
  show ?thesis
    unfolding translatePdf_outcome [OF sample_ocr copy sample_loop] f sv sample_render by simp
qed

lemma showNat_sample: "showNat 1700000000000 = js ''1700000000000''"
  by (simp add: showNat.simps js_def)





section \<open>The claims\<close>

text \<open>
  C1 (as amended). Every line the overlay draws on a page is drawn at font size 9, and its
  width under the font at that size is at most the page width minus twice the margin of
  25, unless the line is a single word (it contains no whitespace): a word that is wider
  than the bound on its own is drawn on a line of its own, at its full width. The claim
  as stated, which includes such lines in the bound, fails: on an A4 page a word of 120
  letters is drawn although it is wider than the 545 points available, and the document
  is returned (measuring and drawing it throw nothing).
\<close>

theorem overlay_line_width:
  assumes "i < length pages"
    and "d \<in> set (op_drawn (renderPages font texts pages ! i))"
  shows "dr_size d = fontSize
    \<and> ((\<exists>w. widthOfTextAtSize font (dr_text d) fontSize = Inr w
              \<and> w \<le> pg_width (pages ! i) - 2 * margin)
        \<or> (\<forall>c \<in> set (dr_text d). \<not> isSpace c))"
proof -
  have d: "d \<in> set (snd (renderPage font texts i (pages ! i)))"
    using assms by (simp add: renderPages_nth)
  show ?thesis
    using renderPage_lineOk [OF d] by (simp add: lineOk_def fitsOrSingle_def mult.commute)
qed

theorem overlay_line_width_witness:
  "drawText (js ''Fourth page in English'') 817
       \<in> set (op_drawn (renderPages sampleFont [js ''Fourth page in English''] [a4] ! 0))
   \<and> dr_size (drawText (js ''Fourth page in English'') 817) = fontSize
   \<and> (\<exists>w. widthOfTextAtSize sampleFont (js ''Fourth page in English'') fontSize = Inr w
           \<and> w \<le> pg_width a4 - 2 * margin)
   \<and> (\<exists>c \<in> set (js ''Fourth page in English''). isSpace c)"
proof -
  have d: "drawText (js ''Fourth page in English'') 817
       \<in> set (op_drawn (renderPages sampleFont [js ''Fourth page in English''] [a4] ! 0))"
    by (simp add: renderPages_nth sample_overlay)
  have sp: "\<exists>c \<in> set (js ''Fourth page in English''). isSpace c"
    by (simp add: js_def isSpace_def)
  have t: "dr_text (drawText (js ''Fourth page in English'') 817) = js ''Fourth page in English''"
    by (simp add: drawText_def)
  have "dr_size (drawText (js ''Fourth page in English'') 817) = fontSize
    \<and> ((\<exists>w. widthOfTextAtSize sampleFont (js ''Fourth page in English'') fontSize = Inr w
              \<and> w \<le> pg_width ([a4] ! 0) - 2 * margin)
        \<or> (\<forall>c \<in> set (js ''Fourth page in English''). \<not> isSpace c))"
    using overlay_line_width [of 0 "[a4]", OF _ d] unfolding t by simp
  then show ?thesis
    using d sp by auto
qed

theorem overlay_line_width_counterexample:
  "renderPages sampleFont [replicate 120 97] [a4]
     = [\<lparr>op_page = a4, op_drawn = [drawText (replicate 120 97) 817]\<rparr>]
   \<and> renderThrows sampleFont [replicate 120 97] [a4] = None
   \<and> widthOfTextAtSize sampleFont (dr_text (drawText (replicate 120 97) 817)) fontSize
       = Inr (60048 / 100)
   \<and> \<not> (60048 / 100 :: real) \<le> pg_width a4 - 2 * margin"
proof -
  have w: "widthOfTextAtSize sampleFont (replicate 120 97) fontSize = Inr (60048 / 100)"
    by (simp add: sampleFont_def fontSize_def list_all_iff)
  have dt: "drawThrows sampleFont (replicate 120 97) = None"
    by (simp add: sampleFont_def list_all_iff)
  have "renderPage sampleFont [replicate 120 97] 0 a4
      = (None, [drawText (replicate 120 97) (pg_height a4 - margin)])"
    by (rule renderPage_single_word [OF _ _ _ w dt]) (simp_all add: isSpace_def a4_def margin_def)
  then have "renderPages sampleFont [replicate 120 97] [a4]
     = [\<lparr>op_page = a4, op_drawn = [drawText (replicate 120 97) 817]\<rparr>]"
    and "renderThrows sampleFont [replicate 120 97] [a4] = None"
    by (simp_all add: renderPages_def renderThrows_def a4_def margin_def)
  moreover have "\<not> (60048 / 100 :: real) \<le> pg_width a4 - 2 * margin"
    by (simp add: a4_def margin_def)
  ultimately show ?thesis
    using w by (simp add: drawText_def)
qed

text \<open>
  C2 (as amended). After the stable sort of the words by \<open>y0\<close>, the lines of the
  Line Reconstructor are the grouping in which a word starts a new line exactly when its
  \<open>y0\<close> differs from that of the previous word by 4 or more, and joins the current line
  when the difference is less than 4. Words with \<open>y0\<close> 10, 11 and 40 give two lines,
  one with 10 and 11, one with 40. The claim as stated puts the boundary at "more than
  4": at a difference of exactly 4 the code starts a new line where the claim's rule
  would not.
\<close>

theorem reconstructLines_new_line_rule:
  "map l_words (reconstructLines ws) =
     groupLines (\<lambda>prev word. 4 \<le> \<bar>bb_y0 (w_bbox word) - bb_y0 (w_bbox prev)\<bar>) (sortWords ws)
   \<and> sorted (map (\<lambda>w. bb_y0 (w_bbox w)) (sortWords ws))
   \<and> mset (sortWords ws) = mset ws
   \<and> (map (\<lambda>w. bb_y0 (w_bbox w)) ws = [10, 11, 40] \<longrightarrow>
        map (\<lambda>l. map (\<lambda>w. bb_y0 (w_bbox w)) (l_words l)) (reconstructLines ws) = [[10, 11], [40]])"
proof -
  have "(\<lambda>(p :: ocr_word) (w :: ocr_word). \<not> \<bar>bb_y0 (w_bbox w) - bb_y0 (w_bbox p)\<bar> < yTolerance)
      = (\<lambda>prev word. 4 \<le> \<bar>bb_y0 (w_bbox word) - bb_y0 (w_bbox prev)\<bar>)"
    by (simp add: yTolerance_def not_less)
  then have "map l_words (reconstructLines ws) =
     groupLines (\<lambda>prev word. 4 \<le> \<bar>bb_y0 (w_bbox word) - bb_y0 (w_bbox prev)\<bar>) (sortWords ws)"
    using reconstructLines_groupLines [of ws] by simp
  moreover have "sorted (map (\<lambda>w. bb_y0 (w_bbox w)) (sortWords ws))"
    unfolding sortWords_def by (rule sorted_sort_key)
  moreover have "mset (sortWords ws) = mset ws"
    unfolding sortWords_def by (rule mset_sort)
  ultimately show ?thesis
    using scenarioD [of ws] by blast
qed

theorem reconstructLines_new_line_rule_witness:
  "map (\<lambda>l. map (\<lambda>w. bb_y0 (w_bbox w)) (l_words l)) (reconstructLines [wordAt 10, wordAt 11, wordAt 40])
     = [[10, 11], [40]]"
  using reconstructLines_new_line_rule [of "[wordAt 10, wordAt 11, wordAt 40]"]
  by (simp add: wordAt_def)

theorem reconstructLines_new_line_rule_counterexample:
  "map l_words (reconstructLines [wordAt 10, wordAt 14]) = [[wordAt 10], [wordAt 14]]
   \<and> \<not> 4 < \<bar>bb_y0 (w_bbox (wordAt 14)) - bb_y0 (w_bbox (wordAt 10))\<bar>
   \<and> groupLines (\<lambda>prev word. 4 < \<bar>bb_y0 (w_bbox word) - bb_y0 (w_bbox prev)\<bar>)
         (sortWords [wordAt 10, wordAt 14])
       = [[wordAt 10, wordAt 14]]"
  unfolding reconstructLines_groupLines
  by (simp add: sortWords_def wordAt_def yTolerance_def)

text \<open>
  C3. For every word list, the Line Reconstructor produces at most as many lines as there
  are words; the lines, one after the other, are the sorted words, so that as multisets
  the words of all lines together are the input words (no word is dropped, duplicated or
  put on two lines); no line is empty; and the empty word list gives no lines, as a
  value and not as an error.
\<close>

theorem reconstructLines_partition:
  "length (reconstructLines ws) \<le> length ws
   \<and> concat (map l_words (reconstructLines ws)) = sortWords ws
   \<and> mset (concat (map l_words (reconstructLines ws))) = mset ws
   \<and> [] \<notin> set (map l_words (reconstructLines ws))
   \<and> reconstructLines [] = []"
proof -
  let ?nl = "\<lambda>p w. \<not> \<bar>bb_y0 (w_bbox w) - bb_y0 (w_bbox p)\<bar> < yTolerance"
  note eq = reconstructLines_groupLines [of ws]
  have "length (map l_words (reconstructLines ws)) \<le> length (sortWords ws)"
    unfolding eq by (rule length_groupLines)
  then have len: "length (reconstructLines ws) \<le> length ws"
    by (simp add: sortWords_def)
  have cat: "concat (map l_words (reconstructLines ws)) = sortWords ws"
    unfolding eq by (rule concat_groupLines)
  have ms: "mset (concat (map l_words (reconstructLines ws))) = mset ws"
    unfolding cat sortWords_def by (rule mset_sort)
  have ne: "[] \<notin> set (map l_words (reconstructLines ws))"
    unfolding eq by (rule groupLines_nonempty)
  have "reconstructLines [] = []"
    by (simp add: reconstructLines_def)
  then show ?thesis
    using len cat ms ne by simp
qed

theorem reconstructLines_partition_witness:
  "length (reconstructLines [wordAt 40, wordAt 10, wordAt 11]) \<le> 3
   \<and> concat (map l_words (reconstructLines [wordAt 40, wordAt 10, wordAt 11]))
       = [wordAt 10, wordAt 11, wordAt 40]"
  using reconstructLines_partition [of "[wordAt 40, wordAt 10, wordAt 11]"]
  by (simp add: sortWords_def wordAt_def)

text \<open>
  C4. The Variant Selector returns, for the two variants in their fixed order grayscale,
  adaptive, the adaptive result when its confidence is strictly higher and the grayscale
  result otherwise (so also on a tie), and the selected confidence is the maximum: the
  choice is a function of the two confidences. For any non-empty list of per-variant
  results, the result selected is the first one in the list among those of the highest
  confidence.
\<close>

theorem selectVariant_highest_confidence:
  "selectVariant recognize =
     Some \<lparr>vr_variant = (if orZero (td_confidence (recognize Grayscale))
                             < orZero (td_confidence (recognize Adaptive))
                          then Adaptive else Grayscale),
           vr_result = recognize (if orZero (td_confidence (recognize Grayscale))
                             < orZero (td_confidence (recognize Adaptive))
                          then Adaptive else Grayscale),
           vr_confidence = max (orZero (td_confidence (recognize Grayscale)))
                             (orZero (td_confidence (recognize Adaptive)))\<rparr>
   \<and> (results \<noteq> [] \<longrightarrow>
        (\<exists>pre r post. bestResult results = Some r \<and> results = pre @ r # post
           \<and> (\<forall>x \<in> set pre. vr_confidence x < vr_confidence r)
           \<and> (\<forall>x \<in> set post. vr_confidence x \<le> vr_confidence r)))"
  using selectVariant_two [of recognize] bestResult_first_max [of results] by blast

theorem selectVariant_highest_confidence_witness:
  "map_option vr_variant (selectVariant (\<lambda>v. \<lparr>td_text = js ''text'', td_confidence = Some 87, td_words = None\<rparr>))
     = Some Grayscale
   \<and> map_option vr_variant (selectVariant (\<lambda>v. \<lparr>td_text = js ''text'',
        td_confidence = (if v = Adaptive then Some 91 else Some 87), td_words = None\<rparr>))
     = Some Adaptive"
  using selectVariant_highest_confidence
      [of "\<lambda>v. \<lparr>td_text = js ''text'', td_confidence = Some 87, td_words = None\<rparr>" "[]"]
    selectVariant_highest_confidence
      [of "\<lambda>v. \<lparr>td_text = js ''text'', td_confidence = (if v = Adaptive then Some 91 else Some 87),
              td_words = None\<rparr>" "[]"]
  by (simp add: orZero_def)

text \<open>
  C5. For every document \<open>translatePdf\<close> processes, there are as many translated texts
  as extracted texts; a page whose extracted text has at most 10 characters gets the
  empty string as its translated text, and the requests sent to the translation service
  are the same after the page as before it. The requests sent over the whole document
  are the cleaned texts of the pages whose trimmed text is longer than 10 characters
  (those that are not blank after cleaning), in page order.
\<close>

theorem translatePdf_text_counts:
  assumes "translatePdf caps sent pdfBuffer = (Inr result, sent')"
  shows "length (translatedTexts result) = length (extractedTexts result)
    \<and> (\<forall>i < length (extractedTexts result). length (extractedTexts result ! i) \<le> 10 \<longrightarrow>
          translatedTexts result ! i = []
        \<and> sentBefore (cap_fetch caps) (extractedTexts result) sent (Suc i)
            = sentBefore (cap_fetch caps) (extractedTexts result) sent i)
    \<and> sent' = sent @ filter (\<lambda>t. \<not> (t = [] \<or> length (trim t) = 0))
          (map cleanText (filter (\<lambda>p. 10 < length (trim p)) (extractedTexts result)))"
proof -
  from translatePdf_Inr [OF assms]
  obtain ocrPages :: "ocr_page list" where run: "translatePages (cap_fetch caps) (map markdown ocrPages) ([], [], sent)
         = (extractedTexts result, translatedTexts result, sent')"
    by blast
  define ps where "ps = map markdown ocrPages"
  have run': "translatePages (cap_fetch caps) ps ([], [], sent)
         = (extractedTexts result, translatedTexts result, sent')"
    using run by (simp add: ps_def)
  have ex: "extractedTexts result = ps" and len: "length (translatedTexts result) = length ps"
    using translatePages_shape [OF run'] by simp_all
  have short: "translatedTexts result ! i = []
        \<and> sentBefore (cap_fetch caps) ps sent (Suc i) = sentBefore (cap_fetch caps) ps sent i"
    if "i < length ps" and "length (ps ! i) \<le> 10" for i
  proof -
    have "translatePage (cap_fetch caps) (sentBefore (cap_fetch caps) ps sent i) (ps ! i)
        = ([], sentBefore (cap_fetch caps) ps sent i)"
      using that(2) by (rule translatePage_short)
    then show ?thesis
      using translatePages_nth [OF run' that(1)] sentBefore_Suc [OF that(1), of "cap_fetch caps" sent]
      by simp
  qed
  have sent: "sent' = sent @ filter (\<lambda>t. \<not> (t = [] \<or> length (trim t) = 0))
          (map cleanText (filter (\<lambda>p. 10 < length (trim p)) ps))"
    using translatePages_sent [OF run'] .
  show ?thesis
    unfolding ex using len short sent by blast
qed

theorem translatePdf_text_counts_witness:
  "\<exists>result sent'. translatePdf sampleCaps [] (up_buffer sampleUpload) = (Inr result, sent')
     \<and> length (translatedTexts result) = length (extractedTexts result)
     \<and> length (extractedTexts result ! 1) = 5
     \<and> translatedTexts result ! 1 = []
     \<and> sentBefore sampleService (extractedTexts result) [] (Suc 1)
         = sentBefore sampleService (extractedTexts result) [] 1
     \<and> sent' = [js ''First page text'', js ''Second page text'', js ''Third page text'',
                 js ''Fourth page text'']"
proof -
  define result where "result = \<lparr>translatedPdf = renderPages sampleFont
              [js ''[Translation failed: FetchError: socket hang up]'', [],
               js ''[Translation failed: Error: Translation failed: 503 - Service Unavailable]'',
               js ''[Translation failed: Error: Invalid translation response format]'',
               js ''Fourth page in English'']
              [a4, a4, a4, a4, a4],
           extractedTexts = [js ''## First page text'', js ''stamp'', js ''Second page text'',
              js ''Third page text'', js ''Fourth page text''],
           translatedTexts =
              [js ''[Translation failed: FetchError: socket hang up]'', [],
               js ''[Translation failed: Error: Translation failed: 503 - Service Unavailable]'',
               js ''[Translation failed: Error: Invalid translation response format]'',
               js ''Fourth page in English'']\<rparr>"
  have run: "translatePdf sampleCaps [] (up_buffer sampleUpload)
      = (Inr result, [js ''First page text'', js ''Second page text'', js ''Third page text'',
                      js ''Fourth page text''])"
    unfolding result_def by (rule sample_run)
  have c: "cap_fetch sampleCaps = sampleService"
    by (simp add: sampleCaps_def)
  note t = translatePdf_text_counts [OF run, unfolded c]
  have five: "length (extractedTexts result ! 1) = 5"
    by (simp add: result_def js_def)
  have one: "1 < length (extractedTexts result)"
    by (simp add: result_def)
  have short: "translatedTexts result ! 1 = []
     \<and> sentBefore sampleService (extractedTexts result) [] (Suc 1)
         = sentBefore sampleService (extractedTexts result) [] 1"
    using t one five by simp
  show ?thesis
    apply (rule exI [of _ result])
    apply (rule exI [of _ "[js ''First page text'', js ''Second page text'', js ''Third page text'',
                 js ''Fourth page text'']"])
    using run t five short by (intro conjI) simp_all
qed




text \<open>
  C7. The claim says that no line is drawn below the bottom margin of 25. The trailing
  draw of a paragraph is guarded by \<open>y >= margin\<close>, but the draw inside the word loop
  is not, and the cursor starts at the page height minus the margin: on a page less than
  50 points high the first wrapped line is drawn below the margin. Here a label 40
  points high gets its first line at \<open>y = 15\<close>, and the document is returned. (On pages
  at least 50 points high the claim holds: \<open>overlay_above_margin_on_tall_pages\<close>.)
\<close>

theorem overlay_draws_below_margin:
  "renderPages sampleFont
     [js ''Translated-heading-of-the-scanned-page-number-one-of-the-document and-a-second-overlong-hyphenated-word-that-does-not-fit-beside-it'']
     [label]
   = [\<lparr>op_page = label,
        op_drawn = [drawText (js ''Translated-heading-of-the-scanned-page-number-one-of-the-document'') 15]\<rparr>]
   \<and> dr_y (drawText (js ''Translated-heading-of-the-scanned-page-number-one-of-the-document'') 15) < margin
   \<and> renderThrows sampleFont
     [js ''Translated-heading-of-the-scanned-page-number-one-of-the-document and-a-second-overlong-hyphenated-word-that-does-not-fit-beside-it'']
     [label] = None"
  by (simp add: renderPages_def renderThrows_def renderPage_def label_def sampleFont_def margin_def
      fontSize_def lineHeight_def wordsOf_def isSpace_def js_def drawText_def)

text \<open>
  C8. For a page whose translated text is empty (or missing), the overlay draws nothing:
  the output page is the copied page with no text drawn on it. The output has one page
  per copied page, and every output page carries its copied page unchanged.
\<close>

theorem overlay_empty_text_draws_nothing:
  assumes "i < length pages" and "i < length texts \<longrightarrow> texts ! i = []"
  shows "renderPages font texts pages ! i = \<lparr>op_page = pages ! i, op_drawn = []\<rparr>
    \<and> length (renderPages font texts pages) = length pages
    \<and> map op_page (renderPages font texts pages) = pages"
proof -
  have "renderPage font texts i (pages ! i) = (None, [])"
    using assms(2) by (rule renderPage_empty)
  then have "renderPages font texts pages ! i = \<lparr>op_page = pages ! i, op_drawn = []\<rparr>"
    using renderPages_nth [OF assms(1), of font texts] by simp
  moreover have "length (renderPages font texts pages) = length pages"
    by (simp add: renderPages_def)
  ultimately show ?thesis
    using renderPages_pages [of font texts pages] by simp
qed

theorem overlay_empty_text_draws_nothing_witness:
  "renderPages sampleFont
      [js ''[Translation failed: FetchError: socket hang up]'', [], js ''Fourth page in English'']
      [a4, a4, label] ! 1
    = \<lparr>op_page = a4, op_drawn = []\<rparr>"
  using overlay_empty_text_draws_nothing [of 1 "[a4, a4, label]"
      "[js ''[Translation failed: FetchError: socket hang up]'', [], js ''Fourth page in English'']" sampleFont]
  by simp

text \<open>
  C9. Let a job be stored at time \<open>T\<close> under an identifier for which no deletion is
  pending, and let the server then handle any requests up to time \<open>t\<close> that do not
  store a job under the same identifier. A download at \<open>t\<close> returns the stored
  document when \<open>t\<close> is before \<open>T\<close> plus 30 minutes, and replies "not found" when
  \<open>t\<close> is at or after it, leaving no entry behind. A download of an identifier that has
  no entry replies "not found" and creates none. Timers are modelled as running before
  the first request handled at or after their due time.
\<close>

theorem cache_entry_lifetime:
  assumes fresh: "\<forall>d. (d, showNat T @ rnd) \<notin> set (timers s)"
    and post: "postTranslate caps T rnd (Some f) (s, sent) = (JobReply jobId name n ex tr, s1, sent1)"
    and others: "\<forall>ev \<in> set evs. fst ev \<le> t \<and> \<not> insertsJob jobId ev"
    and run: "serve caps evs (s1, sent1) = (s2, sent2)"
  shows "jobId = showNat T @ rnd
    \<and> (\<exists>result. translatePdf caps sent (up_buffer f) = (Inr result, sent1)
         \<and> (t < T + ttl \<longrightarrow> fst (getDownload t jobId s2) = PdfReply (translatedPdf result)))
    \<and> (T + ttl \<le> t \<longrightarrow> fst (getDownload t jobId s2) = notFound
          \<and> translationCache (snd (getDownload t jobId s2)) jobId = None)
    \<and> (translationCache s0 k = None \<longrightarrow> fst (getDownload t0 k s0) = notFound
          \<and> translationCache (snd (getDownload t0 k s0)) k = None)"
proof -
  from postTranslate_cases [OF post]
  obtain result where res: "translatePdf caps sent (up_buffer f) = (Inr result, sent1)"
    and jid: "jobId = showNat T @ rnd"
    and c: "translationCache s1 = (translationCache (fireTimers T s))(showNat T @ rnd \<mapsto>
              \<lparr>ce_translatedPdf = translatedPdf result, ce_extractedTexts = extractedTexts result,
               ce_translatedTexts = translatedTexts result, ce_timestamp = T\<rparr>)"
    and tm: "timers s1 = timers (fireTimers T s) @ [(T + ttl, showNat T @ rnd)]"
    by auto
  define e where "e = \<lparr>ce_translatedPdf = translatedPdf result, ce_extractedTexts = extractedTexts result,
               ce_translatedTexts = translatedTexts result, ce_timestamp = T\<rparr>"
  have c1: "translationCache s1 jobId = Some e"
    using c jid by (simp add: e_def)
  have "\<forall>d. (d, jobId) \<notin> set (timers (fireTimers T s))"
    using fresh jid unfolding timers_fireTimers by simp
  then have st1: "jobState jobId (T + ttl) e s1"
    unfolding jobState_def using c1 tm jid by auto
  have ni: "\<forall>ev \<in> set evs. \<not> insertsJob jobId ev" using others by simp
  note st2 = serve_jobState [OF st1 ni run]
  have before: "fst (getDownload t jobId s2) = PdfReply (translatedPdf result)" if "t < T + ttl"
  proof -
    have "\<forall>ev \<in> set evs. fst ev < T + ttl" using others that by auto
    then have "translationCache s2 jobId = Some e" using st2(2) c1 by simp
    then have "translationCache (fireTimers t s2) jobId = Some e"
      using jobState_fireTimers(2) [OF st2(1) that] by simp
    from getDownload_found [OF this] show ?thesis by (simp add: e_def)
  qed
  have after: "fst (getDownload t jobId s2) = notFound
          \<and> translationCache (snd (getDownload t jobId s2)) jobId = None" if "T + ttl \<le> t"
    using getDownload_missing [OF jobState_fireTimers(3) [OF st2(1) that]] .
  have never: "fst (getDownload t0 k s0) = notFound
          \<and> translationCache (snd (getDownload t0 k s0)) k = None" if "translationCache s0 k = None"
  proof -
    have "translationCache (fireTimers t0 s0) k = None"
      using that by (simp add: cache_fireTimers)
    from getDownload_missing [OF this] show ?thesis .
  qed
  show ?thesis
    using jid res before after never by blast
qed

theorem cache_entry_lifetime_witness:
  "\<exists>(result :: translation_result) s1 sent1 s2 sent2.
      postTranslate sampleCaps 1700000000000 (js ''k3x9q'') (Some sampleUpload) (emptyServer, [])
        = (JobReply (js ''1700000000000k3x9q'') (js ''scan.pdf'') 5
             (extractedTexts result) (translatedTexts result), s1, sent1)
    \<and> serve sampleCaps [(1700000600000, GetDownload (js ''1699999999999zzzzz''))] (s1, sent1) = (s2, sent2)
    \<and> fst (getDownload 1700001799999 (js ''1700000000000k3x9q'') s2) = PdfReply (translatedPdf result)
    \<and> fst (getDownload 1700001800000 (js ''1700000000000k3x9q'') s2) = notFound
    \<and> fst (getDownload 1700001799999 (js ''1699999999999zzzzz'') emptyServer) = notFound"
proof -
  have mime: "up_mimetype sampleUpload = js ''application/pdf''"
    by (simp add: sampleUpload_def)
  have id: "showNat 1700000000000 @ js ''k3x9q'' = js ''1700000000000k3x9q''"
    unfolding showNat_sample by (simp add: js_def)
  have name: "up_originalname sampleUpload = js ''scan.pdf''"
    by (simp add: sampleUpload_def)
  define result where "result = \<lparr>translatedPdf = renderPages sampleFont
              [js ''[Translation failed: FetchError: socket hang up]'', [],
               js ''[Translation failed: Error: Translation failed: 503 - Service Unavailable]'',
               js ''[Translation failed: Error: Invalid translation response format]'',
               js ''Fourth page in English'']
              [a4, a4, a4, a4, a4],
           extractedTexts = [js ''## First page text'', js ''stamp'', js ''Second page text'',
              js ''Third page text'', js ''Fourth page text''],
           translatedTexts =
              [js ''[Translation failed: FetchError: socket hang up]'', [],
               js ''[Translation failed: Error: Translation failed: 503 - Service Unavailable]'',
               js ''[Translation failed: Error: Invalid translation response format]'',
               js ''Fourth page in English'']\<rparr>"
  have run: "translatePdf sampleCaps [] (up_buffer sampleUpload)
      = (Inr result, [js ''First page text'', js ''Second page text'', js ''Third page text'', js ''Fourth page text''])"
    unfolding result_def by (rule sample_run)
  obtain s1 where post: "postTranslate sampleCaps 1700000000000 (js ''k3x9q'') (Some sampleUpload) (emptyServer, [])
        = (JobReply (js ''1700000000000k3x9q'') (js ''scan.pdf'') 5
             (extractedTexts result) (translatedTexts result), s1, [js ''First page text'', js ''Second page text'', js ''Third page text'', js ''Fourth page text''])"
    using postTranslate_stores [OF mime run, of 1700000000000 "js ''k3x9q''" emptyServer]
    unfolding id name by (simp add: result_def)
  obtain s2 sent2 where srv: "serve sampleCaps [(1700000600000, GetDownload (js ''1699999999999zzzzz''))]
      (s1, [js ''First page text'', js ''Second page text'', js ''Third page text'', js ''Fourth page text'']) = (s2, sent2)"
    by (cases "serve sampleCaps [(1700000600000, GetDownload (js ''1699999999999zzzzz''))]
      (s1, [js ''First page text'', js ''Second page text'', js ''Third page text'', js ''Fourth page text''])")
  have fresh: "\<forall>d. (d, showNat 1700000000000 @ js ''k3x9q'') \<notin> set (timers emptyServer)"
    by (simp add: emptyServer_def)
  have none: "translationCache emptyServer (js ''1699999999999zzzzz'') = None"
    by (simp add: emptyServer_def)
  have T: "(1700000000000 :: nat) + ttl = 1700001800000"
    by (simp add: ttl_def)
  have ev1: "\<forall>ev \<in> set [(1700000600000 :: nat, GetDownload (js ''1699999999999zzzzz''))].
      fst ev \<le> 1700001799999 \<and> \<not> insertsJob (js ''1700000000000k3x9q'') ev"
    by (simp add: insertsJob_def)
  have ev2: "\<forall>ev \<in> set [(1700000600000 :: nat, GetDownload (js ''1699999999999zzzzz''))].
      fst ev \<le> 1700001800000 \<and> \<not> insertsJob (js ''1700000000000k3x9q'') ev"
    by (simp add: insertsJob_def)
  have a: "fst (getDownload 1700001799999 (js ''1700000000000k3x9q'') s2) = PdfReply (translatedPdf result)
      \<and> fst (getDownload 1700001799999 (js ''1699999999999zzzzz'') emptyServer) = notFound"
    using cache_entry_lifetime [OF fresh post ev1 srv, of emptyServer "js ''1699999999999zzzzz''" 1700001799999]
      run none id unfolding T by simp
  have b: "fst (getDownload 1700001800000 (js ''1700000000000k3x9q'') s2) = notFound"
    using cache_entry_lifetime [OF fresh post ev2 srv, of emptyServer "js ''1699999999999zzzzz''" 0] id
    unfolding T by simp
  show ?thesis
    apply (rule exI [of _ result], rule exI [of _ s1])
    apply (rule exI [of _ "[js ''First page text'', js ''Second page text'', js ''Third page text'', js ''Fourth page text'']"])
    apply (rule exI [of _ s2], rule exI [of _ sent2])
    using post srv a b by (intro conjI) simp_all
qed

text \<open>
  C10. For every input that is empty or consists only of whitespace,
  \<open>translateWithHuggingFace\<close> returns the empty string, whatever the external service
  would answer, and the list of requests sent to the service is unchanged: no call is
  made, so the result is never a failure.
\<close>

theorem translateWithHuggingFace_blank:
  assumes "\<forall>c \<in> set txt. isSpace c"
  shows "translateWithHuggingFace fetch sent txt = (Inr (JStr []), sent)"
  using assms by (simp add: translateWithHuggingFace_def trim_all_space)

theorem translateWithHuggingFace_blank_witness:
  "translateWithHuggingFace (\<lambda>sent t. Inl (JsError (js ''FetchError'') (js ''network down'')))
     [] [32, 9, 10, 160] = (Inr (JStr []), [])"
  using translateWithHuggingFace_blank
    [of "[32, 9, 10, 160]" "\<lambda>sent t. Inl (JsError (js ''FetchError'') (js ''network down''))" "[]"]
  by (simp add: isSpace_def)

end
